theory Spec2Isabelle
  imports Main "HOL-Library.Word" "HOL-Library.Signed_Division" "HOL-Library.Multiset"
begin

section \<open>Data model of internal/runner/runner.go\<close>

text \<open>
  Go's \<open>uint64\<close> and \<open>int64\<close> are 64-bit words: \<open>+\<close>, \<open>-\<close> and \<open>*\<close> wrap, a conversion
  between the two keeps the bits, \<open>unat\<close> reads a word as unsigned and \<open>sint\<close> as two's
  complement. A \<open>time.Duration\<close> is an \<open>int64\<close> count of nanoseconds. An instant of the
  monotonic clock is an integer number of nanoseconds.
\<close>

type_synonym u64 = "64 word"
type_synonym duration = "64 word"
type_synonym time = int

text \<open>The run-time panics the code can raise.\<close>

datatype panic = DivideByZero | CloseOfClosedChannel | SendOnClosedChannel | NegativeWaitGroup

record LoadTestArgs =
  Duration :: duration
  Qps :: u64
  Workers :: u64
  MaxWorkers :: u64
  AutoScale :: bool
  Timeout :: u64
  Method :: string
  OutputFile :: string

text \<open>
  The \<open>Runner\<close>: \<open>stopch\<close> is the state of the channel (\<open>True\<close> once closed), \<open>stopOnce\<close> the
  state of the \<open>sync.Once\<close> (\<open>True\<close> once it has run). The HTTP client belongs to the
  environment: what a request and its transport return is an \<open>outcome\<close> below.
\<close>

record Runner =
  target :: string
  args :: LoadTestArgs
  stopch :: bool
  stopOnce :: bool

record Result =
  Success :: bool
  Latency :: duration
  Timestamp :: time
  Seq :: u64
  Error :: string
  Code :: "16 word"

text \<open>\<open>loadTest\<close>; the mutex \<open>seqmu\<close> is the atomicity of \<open>sendRequest_locked\<close>.\<close>

record loadTest =
  began :: time
  seq :: u64

definition NewRunner :: "string \<Rightarrow> LoadTestArgs \<Rightarrow> Runner" where
  "NewRunner tgt a = \<lparr>target = tgt, args = a, stopch = False, stopOnce = False\<rparr>"

section \<open>Integer and time primitives\<close>

definition Second :: duration where
  "Second = 1000000000"

definition MaxInt64 :: u64 where
  "MaxInt64 = 9223372036854775807"

text \<open>Go's \<open>/\<close> on \<open>int64\<close> truncates towards zero and panics on a zero divisor.\<close>

definition i64_div :: "64 word \<Rightarrow> 64 word \<Rightarrow> panic + 64 word" where
  "i64_div x y = (if y = 0 then Inl DivideByZero else Inr (word_of_int (sint x sdiv sint y)))"

definition u64_div :: "64 word \<Rightarrow> 64 word \<Rightarrow> panic + 64 word" where
  "u64_div x y = (if y = 0 then Inl DivideByZero else Inr (x div y))"

text \<open>
  \<open>time.Since(t)\<close> at the instant \<open>n\<close>: the difference of the monotonic readings, which
  the time package saturates at the largest and smallest \<open>Duration\<close>.
\<close>

definition time_Since :: "time \<Rightarrow> time \<Rightarrow> duration" where
  "time_Since n t =
     (if n - t > 9223372036854775807 then word_of_int 9223372036854775807
      else if n - t < - 9223372036854775808 then word_of_int (- 9223372036854775808)
      else word_of_int (n - t))"

definition time_Add :: "time \<Rightarrow> duration \<Rightarrow> time" where
  "time_Add t d = t + sint d"

section \<open>The pacer\<close>

definition pace :: "LoadTestArgs \<Rightarrow> duration \<Rightarrow> u64 \<Rightarrow> panic + (duration \<times> bool)" where
  "pace a elapsed requests =
     (case i64_div elapsed Second of
        Inl e \<Rightarrow> Inl e
      | Inr secs \<Rightarrow>
          let expectedRequests = Qps a * secs in
          if requests < expectedRequests then Inr (0, False)
          else
            (case i64_div Second (Qps a) of
               Inl e \<Rightarrow> Inl e
             | Inr interval \<Rightarrow>
                 (case u64_div MaxInt64 interval of
                    Inl e \<Rightarrow> Inl e
                  | Inr q \<Rightarrow>
                      if q < requests then Inr (0, True)
                      else
                        let delta = (requests + 1) * interval
                        in Inr (delta - elapsed, False))))"

section \<open>Stop\<close>

definition close_chan :: "bool \<Rightarrow> panic + bool" where
  "close_chan closed = (if closed then Inl CloseOfClosedChannel else Inr True)"

text \<open>\<open>r.stopOnce.Do(func() { close(r.stopch) })\<close>.\<close>

definition stopOnce_Do :: "Runner \<Rightarrow> panic + Runner" where
  "stopOnce_Do rn =
     (if stopOnce rn then Inr rn
      else
        (case close_chan (stopch rn) of
           Inl e \<Rightarrow> Inl e
         | Inr c \<Rightarrow> Inr (rn\<lparr>stopch := c, stopOnce := True\<rparr>)))"

text \<open>The \<open>select\<close> of \<open>Stop\<close> takes the first case when the channel is closed.\<close>

definition Stop :: "Runner \<Rightarrow> panic + (bool \<times> Runner)" where
  "Stop rn =
     (if stopch rn then Inr (False, rn)
      else
        (case stopOnce_Do rn of
           Inl e \<Rightarrow> Inl e
         | Inr rn' \<Rightarrow> Inr (True, rn')))"

text \<open>\<open>n\<close> calls of \<open>Stop\<close> one after the other, with what each returned.\<close>

fun Stop_calls :: "nat \<Rightarrow> Runner \<Rightarrow> panic + (bool list \<times> Runner)" where
  "Stop_calls 0 rn = Inr ([], rn)"
| "Stop_calls (Suc n) rn =
     (case Stop rn of
        Inl e \<Rightarrow> Inl e
      | Inr (b, rn') \<Rightarrow>
          (case Stop_calls n rn' of
             Inl e \<Rightarrow> Inl e
           | Inr (bs, rn'') \<Rightarrow> Inr (b # bs, rn'')))"

section \<open>sendRequest\<close>

text \<open>
  What the environment answers to one request: \<open>http.NewRequest\<close> fails with an error
  text, or \<open>client.Do\<close> fails with one, or a response arrives with its \<open>StatusCode\<close> (a Go
  \<open>int\<close>) and its \<open>Status\<close> line.
\<close>

datatype outcome = BuildError string | TransportError string | Response int string

definition zero_Result :: Result where
  "zero_Result = \<lparr>Success = False, Latency = 0, Timestamp = 0, Seq = 0, Error = [], Code = 0\<rparr>"

text \<open>The section under \<open>seqmu\<close>, at the instant \<open>n\<close>.\<close>

definition sendRequest_locked :: "time \<Rightarrow> loadTest \<Rightarrow> Result \<times> loadTest" where
  "sendRequest_locked n l =
     (zero_Result\<lparr>Timestamp := time_Add (began l) (time_Since n (began l)), Seq := seq l\<rparr>,
      l\<lparr>seq := seq l + 1\<rparr>)"

text \<open>The body after the unlock: the result and the variable \<open>err\<close> at the return.\<close>

definition sendRequest_body :: "outcome \<Rightarrow> Result \<Rightarrow> Result \<times> string option" where
  "sendRequest_body oc result =
     (case oc of
        BuildError e \<Rightarrow> (result\<lparr>Error := e\<rparr>, Some e)
      | TransportError e \<Rightarrow> (result\<lparr>Error := e\<rparr>, Some e)
      | Response statusCode status \<Rightarrow>
          (let result = result\<lparr>Code := word_of_int statusCode\<rparr>
           in if Code result < 200 \<or> Code result \<ge> 400 then (result\<lparr>Error := status\<rparr>, None)
              else (result, None)))"

text \<open>The deferred function, run at the instant \<open>n\<close> of the return.\<close>

definition sendRequest_deferred :: "time \<Rightarrow> string option \<Rightarrow> Result \<Rightarrow> Result" where
  "sendRequest_deferred n err result =
     (let result = result\<lparr>Latency := time_Since n (Timestamp result)\<rparr>
      in case err of None \<Rightarrow> result | Some e \<Rightarrow> result\<lparr>Error := e\<rparr>)"

definition sendRequest_rest :: "time \<Rightarrow> outcome \<Rightarrow> Result \<Rightarrow> Result" where
  "sendRequest_rest n oc result =
     (case sendRequest_body oc result of (result', err) \<Rightarrow> sendRequest_deferred n err result')"

text \<open>
  One whole call: the locked section at \<open>t0\<close>, the environment's answer \<open>oc\<close>, the return
  at \<open>t1\<close>.
\<close>

definition sendRequest :: "time \<Rightarrow> outcome \<Rightarrow> time \<Rightarrow> loadTest \<Rightarrow> Result \<times> loadTest" where
  "sendRequest t0 oc t1 l =
     (case sendRequest_locked t0 l of (result, l') \<Rightarrow> (sendRequest_rest t1 oc result, l'))"

section \<open>createWriter and printResultSummary\<close>

text \<open>
  \<open>createWriter\<close> returns its error, if any; \<open>oserr\<close> is what \<open>os.Create\<close> answers for the
  name.
\<close>

definition createWriter :: "string option \<Rightarrow> string \<Rightarrow> string option" where
  "createWriter oserr name = (if name = ''stdout'' then None else oserr)"

definition summary_step :: "Result \<Rightarrow> u64 \<times> u64 \<times> duration \<Rightarrow> u64 \<times> u64 \<times> duration" where
  "summary_step x acc =
     (case acc of (success, failure, totalLatency) \<Rightarrow>
        if Code x \<ge> 200 \<and> Code x < 400 then (success + 1, failure, totalLatency + Latency x)
        else (success, failure + 1, totalLatency + Latency x))"

text \<open>The counts and the average latency it prints; the division panics on no result.\<close>

definition printResultSummary :: "Result list \<Rightarrow> panic + (u64 \<times> u64 \<times> duration)" where
  "printResultSummary results =
     (case fold summary_step results (0, 0, 0) of (success, failure, totalLatency) \<Rightarrow>
        (case i64_div totalLatency (of_nat (length results)) of
           Inl e \<Rightarrow> Inl e
         | Inr avg \<Rightarrow> Inr (success, failure, avg)))"

section \<open>The running system\<close>

text \<open>
  \<open>Run\<close>, the dispatcher goroutine of \<open>StartTest\<close> and the workers run concurrently. The
  model is an interleaving of atomic steps: every goroutine has a program counter, and an
  action names the goroutine that moves and what the environment answers.
\<close>

text \<open>
  A worker (\<open>runWorker\<close>): about to receive from \<open>ticks\<close>, blocked in the receive, holding
  a tick before \<open>seqmu.Lock\<close>, inside \<open>sendRequest\<close> after the unlock, blocked in
  \<open>results <- result\<close>, and returned (after \<open>wg.Done\<close>).
\<close>

datatype wpc = AtRange | Parked | GotTick | InFlight Result | Pushing Result | Exited

text \<open>
  The dispatcher: the top of the loop, in \<open>time.Sleep\<close> until an instant, at the
  non-blocking \<open>select\<close>, at the blocking \<open>select\<close>, and the four statements of the
  deferred function, \<open>r.Stop()\<close> in its two halves.
\<close>

datatype dpc = NotStarted | LoopTop | Sleeping time | Select1 | Select2
  | CloseTicks | WgWait | CloseResults | StopSelect | StopOnce | Finished

text \<open>\<open>Run\<close>: its return value is the error text, if any.\<close>

datatype mpc = RunStart | RunCreateWriter | RunLoop | RunStopOnce | RunReturned "string option"

datatype event = TicksClosed | WorkersJoined | ResultsClosed | StopTriggered | Pushed Result

text \<open>
  \<open>issued\<close> and \<open>trace\<close> are history variables: the sequence number and timestamp of every
  locked section in the order they ran, and the shutdown steps and pushes in the order
  they happened. No step reads them.
\<close>

record system =
  runner :: Runner
  lt :: loadTest
  workers :: u64
  count_var :: u64
  wg :: int
  ticks_closed :: bool
  results_closed :: bool
  main :: mpc
  disp :: dpc
  panicking :: "panic option"
  pool :: "wpc list"
  resultList :: "Result list"
  now :: time
  crashed :: "panic option"
  issued :: "(u64 \<times> time) list"
  trace :: "event list"

definition init :: "string \<Rightarrow> LoadTestArgs \<Rightarrow> time \<Rightarrow> system" where
  "init tgt a t0 =
     \<lparr>runner = NewRunner tgt a, lt = \<lparr>began = 0, seq = 0\<rparr>, workers = 0, count_var = 0,
      wg = 0, ticks_closed = False, results_closed = False, main = RunStart,
      disp = NotStarted, panicking = None, pool = [], resultList = [], now = t0,
      crashed = None, issued = [], trace = []\<rparr>"

subsection \<open>Run\<close>

text \<open>Line 64: \<open>StartTest\<close> spawns the initial workers and the dispatcher.\<close>

definition StartTest :: "system \<Rightarrow> system option" where
  "StartTest s =
     (if main s = RunStart then
        Some (s\<lparr>lt := \<lparr>began = now s, seq = 0\<rparr>,
                workers := Workers (args (runner s)),
                pool := replicate (unat (Workers (args (runner s)))) AtRange,
                wg := int (unat (Workers (args (runner s)))),
                count_var := 0, disp := LoopTop, main := RunCreateWriter\<rparr>)
      else None)"

text \<open>Lines 69 to 72.\<close>

definition open_output :: "string option \<Rightarrow> system \<Rightarrow> system option" where
  "open_output oserr s =
     (if main s = RunCreateWriter then
        (case createWriter oserr (OutputFile (args (runner s))) of
           None \<Rightarrow> Some (s\<lparr>main := RunLoop\<rparr>)
         | Some err \<Rightarrow>
             Some (s\<lparr>main := RunReturned
               (Some (''error opening '' @ OutputFile (args (runner s)) @ '': '' @ err))\<rparr>))
      else None)"

text \<open>
  Lines 77 to 85 with a worker's \<open>results <- result\<close>: the channel is unbuffered, so
  the push and the receive are one step. \<open>werr\<close> is what \<open>writeResult\<close> returns.
\<close>

definition recv_result :: "nat \<Rightarrow> string option \<Rightarrow> system \<Rightarrow> system option" where
  "recv_result i werr s =
     (if main s = RunLoop \<and> i < length (pool s) \<and> \<not> results_closed s then
        (case pool s ! i of
           Pushing res \<Rightarrow>
             Some (s\<lparr>pool := (pool s)[i := AtRange],
                     resultList := resultList s @ [res],
                     trace := trace s @ [Pushed res],
                     main := (case werr of None \<Rightarrow> RunLoop | Some e \<Rightarrow> RunReturned (Some e))\<rparr>)
         | _ \<Rightarrow> None)
      else None)"

text \<open>Lines 78 to 81: the receive from the closed channel.\<close>

definition recv_closed :: "system \<Rightarrow> system option" where
  "recv_closed s =
     (if main s = RunLoop \<and> results_closed s then
        (case printResultSummary (resultList s) of
           Inl e \<Rightarrow> Some (s\<lparr>crashed := Some e\<rparr>)
         | Inr _ \<Rightarrow> Some (s\<lparr>main := RunReturned None\<rparr>))
      else None)"

text \<open>Lines 86 to 93: a signal arrives; the \<open>select\<close> of \<open>Stop\<close>, then its \<open>Do\<close>.\<close>

definition signal :: "system \<Rightarrow> system option" where
  "signal s =
     (if main s = RunLoop then
        Some (if stopch (runner s) then s\<lparr>main := RunReturned None\<rparr>
              else s\<lparr>main := RunStopOnce\<rparr>)
      else None)"

definition main_stopOnce :: "system \<Rightarrow> system option" where
  "main_stopOnce s =
     (if main s = RunStopOnce then
        (case stopOnce_Do (runner s) of
           Inl e \<Rightarrow> Some (s\<lparr>crashed := Some e\<rparr>)
         | Inr rn \<Rightarrow> Some (s\<lparr>runner := rn, main := RunLoop\<rparr>))
      else None)"

subsection \<open>The dispatcher\<close>

text \<open>Lines 132 to 142.\<close>

definition loop_top :: "system \<Rightarrow> system" where
  "loop_top s =
     (let a = args (runner s); elapsed = time_Since (now s) (began (lt s))
      in if 0 < sint (Duration a) \<and> sint (Duration a) < sint elapsed
         then s\<lparr>disp := CloseTicks\<rparr>
         else
           (case pace a elapsed (count_var s) of
              Inl e \<Rightarrow> s\<lparr>disp := CloseTicks, panicking := Some e\<rparr>
            | Inr (wait, stop) \<Rightarrow>
                if stop then s\<lparr>disp := CloseTicks\<rparr>
                else s\<lparr>disp := Sleeping (now s + max 0 (sint wait))\<rparr>))"

text \<open>The end of the deferred function: a panic of the loop now ends the program.\<close>

definition finish :: "system \<Rightarrow> system" where
  "finish s = s\<lparr>disp := Finished, trace := trace s @ [StopTriggered], crashed := panicking s\<rparr>"

text \<open>The steps of the dispatcher that need no partner.\<close>

definition disp_step :: "system \<Rightarrow> system option" where
  "disp_step s =
     (case disp s of
        NotStarted \<Rightarrow> None
      | LoopTop \<Rightarrow> Some (loop_top s)
      | Sleeping t \<Rightarrow>
          if t \<le> now s then
            Some (s\<lparr>disp := (if AutoScale (args (runner s))
                                \<and> workers s < MaxWorkers (args (runner s))
                             then Select1 else Select2)\<rparr>)
          else None
      | Select1 \<Rightarrow> None
      | Select2 \<Rightarrow> None
      | CloseTicks \<Rightarrow>
          (case close_chan (ticks_closed s) of
             Inl e \<Rightarrow> Some (s\<lparr>crashed := Some e\<rparr>)
           | Inr c \<Rightarrow>
               Some (s\<lparr>ticks_closed := c, disp := WgWait, trace := trace s @ [TicksClosed]\<rparr>))
      | WgWait \<Rightarrow>
          if wg s = 0 then Some (s\<lparr>disp := CloseResults, trace := trace s @ [WorkersJoined]\<rparr>)
          else None
      | CloseResults \<Rightarrow>
          (case close_chan (results_closed s) of
             Inl e \<Rightarrow> Some (s\<lparr>crashed := Some e\<rparr>)
           | Inr c \<Rightarrow>
               Some (s\<lparr>results_closed := c, disp := StopSelect,
                       trace := trace s @ [ResultsClosed]\<rparr>))
      | StopSelect \<Rightarrow>
          if stopch (runner s) then Some (finish s) else Some (s\<lparr>disp := StopOnce\<rparr>)
      | StopOnce \<Rightarrow>
          (case stopOnce_Do (runner s) of
             Inl e \<Rightarrow> Some (s\<lparr>crashed := Some e\<rparr>)
           | Inr rn \<Rightarrow> Some (finish (s\<lparr>runner := rn\<rparr>)))
      | Finished \<Rightarrow> None)"

text \<open>
  \<open>case ticks <- struct{}{}\<close> of either \<open>select\<close>: the channel is unbuffered, so the send
  needs a worker blocked in the receive.
\<close>

definition handoff :: "nat \<Rightarrow> system \<Rightarrow> system option" where
  "handoff i s =
     (if (disp s = Select1 \<or> disp s = Select2) \<and> i < length (pool s) \<and> pool s ! i = Parked then
        (if ticks_closed s then Some (s\<lparr>crashed := Some SendOnClosedChannel\<rparr>)
         else Some (s\<lparr>pool := (pool s)[i := GotTick], count_var := count_var s + 1,
                      disp := LoopTop\<rparr>))
      else None)"

text \<open>\<open>case <-r.stopch\<close> of either \<open>select\<close>.\<close>

definition stop_seen :: "system \<Rightarrow> system option" where
  "stop_seen s =
     (if (disp s = Select1 \<or> disp s = Select2) \<and> stopch (runner s) then
        Some (s\<lparr>disp := CloseTicks\<rparr>)
      else None)"

text \<open>Lines 151 to 155: \<open>default\<close> runs when no other case can.\<close>

definition spawn_default :: "system \<Rightarrow> system option" where
  "spawn_default s =
     (if disp s = Select1 \<and> Parked \<notin> set (pool s) \<and> \<not> stopch (runner s) then
        Some (s\<lparr>workers := workers s + 1, wg := wg s + 1, pool := pool s @ [AtRange],
                disp := Select2\<rparr>)
      else None)"

subsection \<open>The workers\<close>

definition park :: "nat \<Rightarrow> system \<Rightarrow> system option" where
  "park i s =
     (if i < length (pool s) \<and> pool s ! i = AtRange then Some (s\<lparr>pool := (pool s)[i := Parked]\<rparr>)
      else None)"

text \<open>The receive from the closed \<open>ticks\<close> ends the loop; \<open>wg.Done\<close> is deferred.\<close>

definition exit_worker :: "nat \<Rightarrow> system \<Rightarrow> system option" where
  "exit_worker i s =
     (if i < length (pool s) \<and> pool s ! i = Parked \<and> ticks_closed s then
        (if wg s - 1 < 0 then Some (s\<lparr>crashed := Some NegativeWaitGroup\<rparr>)
         else Some (s\<lparr>pool := (pool s)[i := Exited], wg := wg s - 1\<rparr>))
      else None)"

definition lock_worker :: "nat \<Rightarrow> system \<Rightarrow> system option" where
  "lock_worker i s =
     (if i < length (pool s) \<and> pool s ! i = GotTick then
        (case sendRequest_locked (now s) (lt s) of (res, l') \<Rightarrow>
           Some (s\<lparr>pool := (pool s)[i := InFlight res], lt := l',
                   issued := issued s @ [(Seq res, Timestamp res)]\<rparr>))
      else None)"

definition complete :: "nat \<Rightarrow> outcome \<Rightarrow> system \<Rightarrow> system option" where
  "complete i oc s =
     (if i < length (pool s) then
        (case pool s ! i of
           InFlight res \<Rightarrow> Some (s\<lparr>pool := (pool s)[i := Pushing (sendRequest_rest (now s) oc res)]\<rparr>)
         | _ \<Rightarrow> None)
      else None)"

text \<open>A send on the closed \<open>results\<close> would panic.\<close>

definition push_closed :: "nat \<Rightarrow> system \<Rightarrow> system option" where
  "push_closed i s =
     (if i < length (pool s) \<and> results_closed s then
        (case pool s ! i of
           Pushing res \<Rightarrow> Some (s\<lparr>crashed := Some SendOnClosedChannel\<rparr>)
         | _ \<Rightarrow> None)
      else None)"

subsection \<open>Steps and runs\<close>

datatype action =
    Tick int
  | CallStartTest
  | OpenOutput "string option"
  | Recv nat "string option"
  | RecvClosed
  | Signal
  | MainStopOnce
  | Disp
  | Handoff nat
  | StopSeen
  | SpawnDefault
  | Park nat
  | ExitWorker nat
  | Lock nat
  | Complete nat outcome
  | PushClosed nat

text \<open>
  No goroutine moves once a panic has ended the program. \<open>Tick d\<close> is the monotonic
  clock moving forward by \<open>d\<close> nanoseconds.
\<close>

definition step :: "system \<Rightarrow> action \<Rightarrow> system option" where
  "step s a =
     (if crashed s \<noteq> None then None
      else
        (case a of
           Tick d \<Rightarrow> (if 0 \<le> d then Some (s\<lparr>now := now s + d\<rparr>) else None)
         | CallStartTest \<Rightarrow> StartTest s
         | OpenOutput oserr \<Rightarrow> open_output oserr s
         | Recv i werr \<Rightarrow> recv_result i werr s
         | RecvClosed \<Rightarrow> recv_closed s
         | Signal \<Rightarrow> signal s
         | MainStopOnce \<Rightarrow> main_stopOnce s
         | Disp \<Rightarrow> disp_step s
         | Handoff i \<Rightarrow> handoff i s
         | StopSeen \<Rightarrow> stop_seen s
         | SpawnDefault \<Rightarrow> spawn_default s
         | Park i \<Rightarrow> park i s
         | ExitWorker i \<Rightarrow> exit_worker i s
         | Lock i \<Rightarrow> lock_worker i s
         | Complete i oc \<Rightarrow> complete i oc s
         | PushClosed i \<Rightarrow> push_closed i s))"

fun run :: "system \<Rightarrow> action list \<Rightarrow> system option" where
  "run s [] = Some s"
| "run s (a # as) = (case step s a of None \<Rightarrow> None | Some s' \<Rightarrow> run s' as)"

section \<open>Notions used in the statements\<close>

text \<open>
  The number of statements of the deferred function the dispatcher has completed:
  \<open>close(ticks)\<close>, \<open>wg.Wait()\<close>, \<open>close(results)\<close>, \<open>r.Stop()\<close>.
\<close>

fun stage :: "dpc \<Rightarrow> nat" where
  "stage WgWait = 1"
| "stage CloseResults = 2"
| "stage StopSelect = 3"
| "stage StopOnce = 3"
| "stage Finished = 4"
| "stage _ = 0"

definition shutdown_order :: "event list" where
  "shutdown_order = [TicksClosed, WorkersJoined, ResultsClosed, StopTriggered]"

fun is_push :: "event \<Rightarrow> bool" where
  "is_push (Pushed res) = True"
| "is_push _ = False"

text \<open>The dispatcher is between a call of \<open>pace\<close> that let it go on and the hand-off.\<close>

fun paced :: "dpc \<Rightarrow> bool" where
  "paced (Sleeping t) = True"
| "paced Select1 = True"
| "paced Select2 = True"
| "paced _ = False"

text \<open>The workers that have not returned.\<close>

definition live :: "wpc list \<Rightarrow> nat" where
  "live ws = length (filter (\<lambda>w. w \<noteq> Exited) ws)"

text \<open>What identifies a request: its sequence number and its timestamp.\<close>

definition stamp_of :: "Result \<Rightarrow> u64 \<times> time" where
  "stamp_of res = (Seq res, Timestamp res)"

text \<open>The requests whose results the workers still hold.\<close>

fun held :: "wpc \<Rightarrow> (u64 \<times> time) multiset" where
  "held (InFlight res) = {#stamp_of res#}"
| "held (Pushing res) = {#stamp_of res#}"
| "held _ = {#}"

definition holding :: "wpc list \<Rightarrow> (u64 \<times> time) multiset" where
  "holding ws = sum_list (map held ws)"

text \<open>The timestamp a request locked now would get.\<close>

definition clock_stamp :: "system \<Rightarrow> time" where
  "clock_stamp s = time_Add (began (lt s)) (time_Since (now s) (began (lt s)))"

fun worker_timed :: "time \<Rightarrow> wpc \<Rightarrow> bool" where
  "worker_timed n (InFlight res) = (Timestamp res \<le> n)"
| "worker_timed n (Pushing res) = (0 \<le> sint (Latency res))"
| "worker_timed n _ = True"

subsection \<open>Invariants of the running system\<close>

definition inv_flags :: "system \<Rightarrow> bool" where
  "inv_flags s \<longleftrightarrow>
     (ticks_closed s \<longleftrightarrow> 1 \<le> stage (disp s)) \<and>
     (results_closed s \<longleftrightarrow> 3 \<le> stage (disp s)) \<and>
     (stopch (runner s) \<longleftrightarrow> stopOnce (runner s)) \<and>
     (main s = RunStart \<longleftrightarrow> disp s = NotStarted)"

definition inv_pool :: "system \<Rightarrow> bool" where
  "inv_pool s \<longleftrightarrow>
     wg s = int (live (pool s)) \<and>
     (2 \<le> stage (disp s) \<longrightarrow> live (pool s) = 0) \<and>
     (\<not> ticks_closed s \<longrightarrow> Exited \<notin> set (pool s)) \<and>
     (main s = RunStart \<longrightarrow> pool s = [])"

definition inv_trace :: "system \<Rightarrow> bool" where
  "inv_trace s \<longleftrightarrow>
     filter (\<lambda>e. \<not> is_push e) (trace s) = take (stage (disp s)) shutdown_order \<and>
     (\<forall>e \<in> set (dropWhile (\<lambda>e. e \<noteq> ResultsClosed) (trace s)). \<not> is_push e)"

text \<open>The pushes of the trace are the results \<open>Run\<close> has received, in that order.\<close>

definition inv_push :: "system \<Rightarrow> bool" where
  "inv_push s \<longleftrightarrow> filter is_push (trace s) = map Pushed (resultList s)"

definition inv_crash :: "system \<Rightarrow> bool" where
  "inv_crash s \<longleftrightarrow>
     (crashed s = None \<or> crashed s = Some DivideByZero) \<and>
     (panicking s = None \<or> panicking s = Some DivideByZero)"

definition inv_workers :: "string \<Rightarrow> LoadTestArgs \<Rightarrow> system \<Rightarrow> bool" where
  "inv_workers tgt a s \<longleftrightarrow>
     target (runner s) = tgt \<and> args (runner s) = a \<and>
     length (pool s) = unat (workers s) \<and>
     (disp s = Select1 \<longrightarrow> AutoScale a \<and> workers s < MaxWorkers a) \<and>
     (Workers a \<le> MaxWorkers a \<longrightarrow> workers s \<le> MaxWorkers a)"

definition inv_seq :: "system \<Rightarrow> bool" where
  "inv_seq s \<longleftrightarrow>
     map fst (issued s) = map of_nat [0..<length (issued s)] \<and>
     seq (lt s) = of_nat (length (issued s)) \<and>
     unat (count_var s) = length (issued s) + length (filter (\<lambda>w. w = GotTick) (pool s)) \<and>
     (paced (disp s) \<longrightarrow> count_var s \<noteq> - 1) \<and>
     mset (issued s) = mset (map stamp_of (resultList s)) + holding (pool s) \<and>
     (main s = RunStart \<or> main s = RunCreateWriter \<longrightarrow> resultList s = []) \<and>
     (main s = RunStart \<longrightarrow> issued s = [] \<and> count_var s = 0)"

definition inv_time :: "system \<Rightarrow> bool" where
  "inv_time s \<longleftrightarrow>
     (main s \<noteq> RunStart \<longrightarrow> began (lt s) \<le> now s) \<and>
     sorted (map snd (issued s)) \<and>
     (\<forall>p \<in> set (issued s). snd p \<le> clock_stamp s) \<and>
     (\<forall>w \<in> set (pool s). worker_timed (now s) w) \<and>
     (\<forall>res \<in> set (resultList s). 0 \<le> sint (Latency res))"

subsection \<open>Concrete configurations and runs\<close>

text \<open>The arguments of \<open>TestQPS\<close> and \<open>TestDuration\<close>.\<close>

definition testArgs :: LoadTestArgs where
  "testArgs = \<lparr>Duration = 1000000000, Qps = 100, Workers = 1, MaxWorkers = 0,
     AutoScale = False, Timeout = 0, Method = [], OutputFile = []\<rparr>"

definition runArgs :: LoadTestArgs where
  "runArgs = testArgs\<lparr>OutputFile := ''stdout''\<rparr>"

text \<open>
  A whole run of one worker: two requests are sent, 10 ms apart, the first answered
  with status 200 and the second timing out; the duration expires, the dispatcher
  shuts down and \<open>Run\<close> returns.
\<close>

definition fullRun :: "action list" where
  "fullRun = [CallStartTest, OpenOutput None, Park 0, Disp, Tick 10000000, Disp, Handoff 0,
     Lock 0, Tick 500, Complete 0 (Response 200 ''200 OK''), Recv 0 None, Park 0, Disp,
     Tick 10000000, Disp, Handoff 0, Lock 0, Tick 30000, Complete 0 (TransportError ''timeout''),
     Recv 0 None, Park 0, Tick 1000000000, Disp, Disp, ExitWorker 0, Disp, Disp, Disp, Disp,
     RecvClosed]"

text \<open>
  The start of a run up to the first request in flight, before \<open>Run\<close> has opened its
  output: at 1000000000 requests per second the first request is due after one nanosecond.
\<close>

definition fileArgs :: LoadTestArgs where
  "fileArgs = testArgs\<lparr>Qps := 1000000000, OutputFile := ''/out/results.csv''\<rparr>"

definition firstRequest :: "action list" where
  "firstRequest = [CallStartTest, Park 0, Disp, Tick 1, Disp, Handoff 0, Lock 0]"

text \<open>One worker, at most five, autoscaling: the dispatcher reaches the non-blocking
  \<open>select\<close> before the worker is blocked in its receive.\<close>

definition scaleArgs :: LoadTestArgs where
  "scaleArgs = \<lparr>Duration = 0, Qps = 100, Workers = 1, MaxWorkers = 5,
     AutoScale = True, Timeout = 30, Method = ''GET'', OutputFile = ''stdout''\<rparr>"

definition scaleRun :: "action list" where
  "scaleRun = [CallStartTest, OpenOutput None, Disp, Tick 10000000, Disp]"

text \<open>Everything the proofs below maintain along a run.\<close>

definition invariant :: "string \<Rightarrow> LoadTestArgs \<Rightarrow> system \<Rightarrow> bool" where
  "invariant tgt a s \<longleftrightarrow>
     inv_flags s \<and> inv_pool s \<and> inv_trace s \<and> inv_push s \<and> inv_crash s \<and>
     inv_workers tgt a s \<and> inv_seq s \<and> inv_time s"





definition target0 :: string where
  "target0 = ''http://localhost:8080''"

text \<open>The state a run from the initial state ends in (for the runs above, all enabled).\<close>

definition final :: "LoadTestArgs \<Rightarrow> action list \<Rightarrow> system" where
  "final a acts = the (run (init target0 a 0) acts)"

section \<open>Properties of the pacer\<close>

lemma sint_Second: "sint Second = 1000000000"
  by (simp add: Second_def)

lemma unat_MaxInt64: "unat MaxInt64 = 9223372036854775807"
  by (simp add: MaxInt64_def)

lemma i64_div_Second:
  "i64_div e Second = Inr (word_of_int (sint e sdiv 1000000000))"
  by (simp add: i64_div_def Second_def)

lemma sint_nonneg_uint:
  fixes e :: "64 word"
  assumes "0 \<le> sint e"
  shows "uint e = sint e"
proof -
  have "sint e < 2 ^ (LENGTH(64) - 1)" by (rule sint_lt)
  then have "sint e < 2 ^ 64" by simp
  then have "take_bit 64 (sint e) = sint e"
    using assms by (simp add: take_bit_int_eq_self)
  then show ?thesis by (simp add: uint_sint)
qed

lemma uint_small_sint:
  fixes e :: "64 word"
  assumes "uint e < 9223372036854775808"
  shows "sint e = uint e"
proof -
  have "0 \<le> uint e" by simp
  then have "- 9223372036854775808 \<le> uint e" by linarith
  then have "signed_take_bit 63 (uint e) = uint e"
    using assms by (intro signed_take_bit_int_eq_self) simp_all
  then show ?thesis by (simp add: sint_uint)
qed

lemma sint_word_of_int64:
  assumes "- 9223372036854775808 \<le> k" "k < 9223372036854775808"
  shows "sint (word_of_int k :: 64 word) = k"
  using assms by (simp add: sint_sbintrunc' signed_take_bit_int_eq_self)

lemma uint_word_of_int64:
  assumes "0 \<le> k" "k < 18446744073709551616"
  shows "uint (word_of_int k :: 64 word) = k"
  using assms by (simp add: uint_word_of_int take_bit_int_eq_self)

lemma sint_bounds64:
  fixes e :: "64 word"
  shows "sint e < 9223372036854775808" "- 9223372036854775808 \<le> sint e"
  using sint_lt [of e] sint_ge [of e] by simp_all

text \<open>seconds elapsed, for a non-negative elapsed\<close>
lemma secs_uint:
  fixes e :: "64 word"
  assumes "0 \<le> sint e"
  shows "uint (word_of_int (sint e sdiv 1000000000) :: 64 word) = sint e div 1000000000"
    and "sint e div 1000000000 \<le> 9223372036"
proof -
  have sd: "sint e sdiv 1000000000 = sint e div 1000000000"
    using assms by (simp add: signed_divide_int_def sgn_if)
  have ub: "sint e div 1000000000 \<le> 9223372036"
    using sint_bounds64(1) [of e] by linarith
  have lb: "0 \<le> sint e div 1000000000"
    using assms by (simp add: pos_imp_zdiv_nonneg_iff)
  show "uint (word_of_int (sint e sdiv 1000000000) :: 64 word) = sint e div 1000000000"
    unfolding sd using lb ub by (intro uint_word_of_int64) linarith+
  show "sint e div 1000000000 \<le> 9223372036" by (rule ub)
qed

lemma interval_uint:
  fixes q :: "64 word"
  assumes "0 < uint q" "uint q \<le> 1000000000"
  shows "i64_div Second q = Inr (word_of_int (1000000000 div uint q))"
    and "uint (word_of_int (1000000000 div uint q) :: 64 word) = 1000000000 div uint q"
    and "1 \<le> 1000000000 div uint q"
    and "1000000000 div uint q \<le> 1000000000"
proof -
  have sq: "sint q = uint q"
    using assms by (intro uint_small_sint) linarith
  have q0: "q \<noteq> 0" using assms by auto
  have sd: "sint Second sdiv sint q = 1000000000 div uint q"
    using assms by (simp add: sq sint_Second signed_divide_int_def sgn_if)
  show "i64_div Second q = Inr (word_of_int (1000000000 div uint q))"
    using q0 sd by (simp add: i64_div_def)
  show ge1: "1 \<le> 1000000000 div uint q"
    using assms int_one_le_iff_zero_less pos_imp_zdiv_pos_iff by blast
  show le: "1000000000 div uint q \<le> 1000000000"
    using int_div_le_self zero_less_numeral by blast
  show "uint (word_of_int (1000000000 div uint q) :: 64 word) = 1000000000 div uint q"
    using ge1 le by (intro uint_word_of_int64) linarith+
qed

lemma pace_behind:
  fixes e c :: "64 word"
  assumes "0 < uint (Qps a)" "uint (Qps a) \<le> 1000000000" "0 \<le> sint e"
  shows "uint (Qps a * word_of_int (sint e sdiv 1000000000)) = uint (Qps a) * (sint e div 1000000000)"
proof -
  let ?s = "word_of_int (sint e sdiv 1000000000) :: 64 word"
  have s: "uint ?s = sint e div 1000000000" and sb: "sint e div 1000000000 \<le> 9223372036"
    using secs_uint [OF assms(3)] by simp_all
  have s0: "0 \<le> sint e div 1000000000"
    using assms(3) by (simp add: pos_imp_zdiv_nonneg_iff)
  have "uint (Qps a) * (sint e div 1000000000) \<le> 1000000000 * 9223372036"
    using assms(1,2) sb s0 by (intro mult_mono) simp_all
  then have lt: "uint (Qps a) * uint ?s < 2 ^ LENGTH(64)"
    unfolding s by simp
  have "uint (Qps a * ?s) = uint (Qps a) * uint ?s"
    by (rule iffD1 [OF uint_mult_lem lt])
  then show ?thesis by (simp only: s)
qed

lemma int_le_div_iff:
  fixes c M I :: int
  assumes "0 < I"
  shows "c \<le> M div I \<longleftrightarrow> c * I \<le> M"
proof
  assume "c \<le> M div I"
  then have "c * I \<le> (M div I) * I"
    using assms by (intro mult_right_mono) simp_all
  also have "\<dots> \<le> M"
  proof -
    have "M = M div I * I + M mod I" by simp
    moreover have "0 \<le> M mod I" using assms by simp
    ultimately show ?thesis by linarith
  qed
  finally show "c * I \<le> M" .
next
  assume "c * I \<le> M"
  then have "(c * I) div I \<le> M div I"
    using assms by (intro zdiv_mono1)
  then show "c \<le> M div I"
    using assms by simp
qed

lemma Second_nz: "Second \<noteq> 0"
  by (simp add: Second_def)

lemma pace_unfold:
  "pace a e c =
     (if c < Qps a * word_of_int (sint e sdiv 1000000000) then Inr (0, False)
      else if Qps a = 0 then Inl DivideByZero
      else if (word_of_int (1000000000 sdiv sint (Qps a)) :: 64 word) = 0 then Inl DivideByZero
      else if MaxInt64 div word_of_int (1000000000 sdiv sint (Qps a)) < c then Inr (0, True)
      else Inr ((c + 1) * word_of_int (1000000000 sdiv sint (Qps a)) - e, False))"
  by (simp add: pace_def Let_def i64_div_def u64_div_def Second_nz sint_Second)

lemma pace_total_small:
  assumes "0 < uint (Qps a)" "uint (Qps a) \<le> 1000000000"
  shows "\<exists>wait stop. pace a e c = Inr (wait, stop)"
proof -
  have q0: "Qps a \<noteq> 0" using assms by auto
  have iv: "i64_div Second (Qps a) = Inr (word_of_int (1000000000 div uint (Qps a)))"
    and ui: "uint (word_of_int (1000000000 div uint (Qps a)) :: 64 word) = 1000000000 div uint (Qps a)"
    and ge: "1 \<le> 1000000000 div uint (Qps a)"
    using interval_uint [OF assms] by simp_all
  have eq: "(word_of_int (1000000000 sdiv sint (Qps a)) :: 64 word) = word_of_int (1000000000 div uint (Qps a))"
    using iv q0 by (simp add: i64_div_def sint_Second)
  have "(word_of_int (1000000000 div uint (Qps a)) :: 64 word) \<noteq> 0"
    using ui ge by (metis not_one_le_zero uint_0_eq)
  then show ?thesis
    using q0 eq by (auto simp: pace_unfold)
qed

lemma pace_ahead:
  fixes e c :: "64 word"
  assumes q: "0 < uint (Qps a)" "uint (Qps a) \<le> 1000000000"
    and e: "0 \<le> sint e"
    and nb: "\<not> uint c < uint (Qps a) * (sint e div 1000000000)"
    and fit: "(uint c + 1) * (1000000000 div uint (Qps a)) \<le> 9223372036854775807"
  shows "\<exists>wait. pace a e c = Inr (wait, False)
           \<and> sint wait = (uint c + 1) * (1000000000 div uint (Qps a)) - sint e"
proof -
  let ?I = "1000000000 div uint (Qps a)"
  let ?iw = "word_of_int ?I :: 64 word"
  have q0: "Qps a \<noteq> 0" using q by auto
  have iv: "i64_div Second (Qps a) = Inr ?iw" and ui: "uint ?iw = ?I"
    and ge: "1 \<le> ?I" and le: "?I \<le> 1000000000"
    using interval_uint [OF q] by simp_all
  have eq: "(word_of_int (1000000000 sdiv sint (Qps a)) :: 64 word) = ?iw"
    using iv q0 by (simp add: i64_div_def sint_Second)
  have iw0: "?iw \<noteq> 0"
    using ui ge by (metis not_one_le_zero uint_0_eq)
  have c0: "0 \<le> uint c" by simp
  have nb': "\<not> c < Qps a * word_of_int (sint e sdiv 1000000000)"
    using nb by (simp add: word_less_def pace_behind [OF q e])
  have c1: "uint c + 1 \<le> 9223372036854775807"
  proof -
    have "(uint c + 1) * 1 \<le> (uint c + 1) * ?I"
      using ge c0 by (intro mult_left_mono) linarith+
    then have "uint c + 1 \<le> (uint c + 1) * ?I" by simp
    then show ?thesis using fit by (rule order_trans)
  qed
  have cI: "uint c * ?I \<le> 9223372036854775807"
  proof -
    have "uint c * ?I \<le> (uint c + 1) * ?I"
      using ge by (intro mult_right_mono) linarith+
    then show ?thesis using fit by (rule order_trans)
  qed
  have "uint c \<le> 9223372036854775807 div ?I"
    using cI ge by (simp add: int_le_div_iff)
  then have ns: "\<not> MaxInt64 div ?iw < c"
    by (simp add: word_less_def uint_div ui MaxInt64_def)
  have uc1: "uint (c + 1) = uint c + 1"
    using c1 by (simp add: uint_plus_simple_iff [symmetric] word_le_def uint_word_ariths take_bit_int_eq_self)
  have "uint (c + 1) * uint ?iw < 2 ^ LENGTH(64)"
    using fit by (simp add: uc1 ui)
  then have "uint ((c + 1) * ?iw) = uint (c + 1) * uint ?iw"
    by (rule iffD1 [OF uint_mult_lem])
  then have ud: "uint ((c + 1) * ?iw) = (uint c + 1) * ?I"
    by (simp only: uc1 ui)
  then have sd: "sint ((c + 1) * ?iw) = (uint c + 1) * ?I"
    using fit uint_small_sint [of "(c + 1) * ?iw"] by simp
  have d0: "0 \<le> (uint c + 1) * ?I"
    using c0 ge by simp
  have "sint ((c + 1) * ?iw - e) = signed_take_bit 63 (sint ((c + 1) * ?iw) - sint e)"
    by (simp add: sint_word_diff)
  also have "\<dots> = sint ((c + 1) * ?iw) - sint e"
    using d0 fit e sint_bounds64 [of e] unfolding sd
    by (intro signed_take_bit_int_eq_self) simp_all
  finally have "sint ((c + 1) * ?iw - e) = (uint c + 1) * ?I - sint e"
    by (simp only: sd)
  moreover have "pace a e c = Inr ((c + 1) * ?iw - e, False)"
    using nb' q0 iw0 ns by (simp add: pace_unfold eq)
  ultimately show ?thesis by blast
qed

lemma pace_behind_branch:
  fixes e c :: "64 word"
  assumes q: "0 < uint (Qps a)" "uint (Qps a) \<le> 1000000000"
    and e: "0 \<le> sint e"
    and b: "uint c < uint (Qps a) * (sint e div 1000000000)"
  shows "pace a e c = Inr (0, False)"
  using b by (simp add: pace_unfold word_less_def pace_behind [OF q e])

text \<open>
  A call of \<open>pace\<close> that lets the loop go on was made with a count below the largest
  \<open>uint64\<close>: \<open>count++\<close> after it does not wrap.
\<close>

lemma pace_continue_count:
  assumes "pace a e c = Inr (w, False)"
  shows "c \<noteq> - 1"
proof
  assume c: "c = - 1"
  have nl: "\<not> (- 1 :: 64 word) < x" for x
    by (simp add: linorder_not_less)
  have "MaxInt64 div x < (- 1 :: 64 word)" for x
  proof -
    have "unat (MaxInt64 div x) \<le> unat MaxInt64"
      by (simp add: unat_div)
    then have "unat (MaxInt64 div x) < 18446744073709551615"
      by (simp add: unat_MaxInt64)
    moreover have "unat (- 1 :: 64 word) = 18446744073709551615"
      by (simp add: unsigned_minus_1_eq_mask mask_eq_exp_minus_1)
    ultimately show ?thesis by (simp only: word_less_nat_alt)
  qed
  then show False
    using assms unfolding c by (simp add: pace_unfold nl split: if_splits)
qed

text \<open>
  C1, as amended. For every non-negative elapsed time and every count of requests
  sent so far, with \<open>0 < QPS \<le> 1000000000\<close> (so that the interval
  \<open>1 second / QPS\<close> is at least one nanosecond): if the count is less than
  \<open>QPS * floor (elapsed / 1 second)\<close>, \<open>pace\<close> returns a zero wait and no stop;
  otherwise, when \<open>(count + 1) * interval\<close> fits a duration, it returns the wait
  \<open>(count + 1) * interval - elapsed\<close> and no stop; and it never panics. The values are read
  as integers: \<open>uint\<close> of the unsigned words, \<open>sint\<close> of the durations.
\<close>

theorem pace_schedule:
  assumes "0 < uint (Qps a)" and "uint (Qps a) \<le> 1000000000" and "0 \<le> sint elapsed"
  shows "(uint requests < uint (Qps a) * (sint elapsed div 1000000000)
            \<longrightarrow> pace a elapsed requests = Inr (0, False))
       \<and> (\<not> uint requests < uint (Qps a) * (sint elapsed div 1000000000)
            \<and> (uint requests + 1) * (1000000000 div uint (Qps a)) \<le> 9223372036854775807
            \<longrightarrow> (\<exists>wait. pace a elapsed requests = Inr (wait, False)
                  \<and> sint wait
                      = (uint requests + 1) * (1000000000 div uint (Qps a)) - sint elapsed))
       \<and> (\<exists>wait stop. pace a elapsed requests = Inr (wait, stop))"
  using pace_behind_branch [OF assms] pace_ahead [OF assms] pace_total_small [OF assms(1,2)]
  by blast

text \<open>
  At 100 requests per second, 1.5 seconds in and 100 requests sent, the next request
  was due 0.49 seconds ago: the wait is negative.
\<close>

theorem pace_schedule_witness:
  "0 < uint (Qps testArgs) \<and> uint (Qps testArgs) \<le> 1000000000
   \<and> 0 \<le> sint (1500000000 :: 64 word)
   \<and> \<not> uint (100 :: 64 word)
         < uint (Qps testArgs) * (sint (1500000000 :: 64 word) div 1000000000)
   \<and> (uint (100 :: 64 word) + 1) * (1000000000 div uint (Qps testArgs))
         \<le> 9223372036854775807
   \<and> pace testArgs 1500000000 100 = Inr (- 490000000, False)
   \<and> sint (- 490000000 :: 64 word)
       = (uint (100 :: 64 word) + 1) * (1000000000 div uint (Qps testArgs))
         - sint (1500000000 :: 64 word)"
  using pace_schedule [of testArgs 1500000000 100]
  by (simp add: testArgs_def pace_unfold signed_divide_int_def MaxInt64_def)

text \<open>
  C1 as stated fails: with \<open>QPS = 2000000000 > 0\<close>, half a second in and 3 requests
  sent, the run is not behind schedule, the interval is 0 and \<open>pace\<close> panics in
  \<open>math.MaxInt64/interval\<close>.
\<close>

theorem pace_zero_interval_counterexample:
  "0 < uint (Qps (testArgs\<lparr>Qps := 2000000000\<rparr>))
   \<and> \<not> uint (3 :: 64 word)
         < uint (Qps (testArgs\<lparr>Qps := 2000000000\<rparr>))
           * (sint (500000000 :: 64 word) div 1000000000)
   \<and> pace (testArgs\<lparr>Qps := 2000000000\<rparr>) 500000000 3 = Inl DivideByZero"
  by (simp add: testArgs_def pace_unfold signed_divide_int_def)

text \<open>
  C3: the guard \<open>math.MaxInt64/interval < requests\<close> lets one count too many through. At
  one request per second, with 9223372036 requests sent and 9223372036 seconds elapsed (the
  run is exactly on schedule), \<open>(requests + 1) * interval\<close> exceeds the largest duration,
  and \<open>pace\<close> does not stop: it returns a wait of one second and \<open>stop = false\<close>. It stops
  at the next count.
\<close>

theorem pace_overflow_guard_off_by_one:
  "(uint (9223372036 :: 64 word) + 1) * (1000000000 div uint (Qps (testArgs\<lparr>Qps := 1\<rparr>)))
     > 9223372036854775807
   \<and> 0 \<le> sint (9223372036000000000 :: 64 word)
   \<and> pace (testArgs\<lparr>Qps := 1\<rparr>) 9223372036000000000 9223372036
       = Inr (1000000000, False)
   \<and> pace (testArgs\<lparr>Qps := 1\<rparr>) 9223372036854775807 9223372037 = Inr (0, True)"
  by (simp add: testArgs_def pace_unfold signed_divide_int_def MaxInt64_def)

text \<open>
  C10, as amended. \<open>pace\<close> is total, and free of division by zero, under
  \<open>0 < QPS \<le> 1000000000\<close>; with \<open>QPS = 0\<close> it panics with a division by zero whatever
  the elapsed time and the count are (the expected count is then 0, so the
  behind-schedule branch is never taken).
\<close>

theorem pace_total:
  "(0 < uint (Qps a) \<and> uint (Qps a) \<le> 1000000000
      \<longrightarrow> (\<exists>wait stop. pace a elapsed requests = Inr (wait, stop)))
   \<and> (Qps a = 0 \<longrightarrow> pace a elapsed requests = Inl DivideByZero)"
  using pace_total_small [of a elapsed requests]
  by (simp add: pace_unfold)

theorem pace_total_witness:
  "0 < uint (Qps testArgs) \<and> uint (Qps testArgs) \<le> 1000000000
   \<and> pace testArgs 0 0 = Inr (10000000, False)
   \<and> Qps (testArgs\<lparr>Qps := 0\<rparr>) = 0
   \<and> pace (testArgs\<lparr>Qps := 0\<rparr>) 0 0 = Inl DivideByZero"
  using pace_total [of testArgs 0 0] pace_total [of "testArgs\<lparr>Qps := 0\<rparr>" 0 0]
  by (simp add: testArgs_def pace_unfold signed_divide_int_def MaxInt64_def)

text \<open>
  C10 as stated fails: \<open>QPS = 1000000001 > 0\<close> makes the interval 0, and the first call
  of \<open>pace\<close> divides by it.
\<close>

theorem pace_total_counterexample:
  "0 < uint (Qps (testArgs\<lparr>Qps := 1000000001\<rparr>))
   \<and> pace (testArgs\<lparr>Qps := 1000000001\<rparr>) 0 0 = Inl DivideByZero"
  by (simp add: testArgs_def pace_unfold signed_divide_int_def)

section \<open>Properties of Stop and sendRequest\<close>

lemma Stop_never_panics: "Stop rn \<noteq> Inl p"
  by (simp add: Stop_def stopOnce_Do_def close_chan_def)

lemma Stop_closed: "stopch rn \<Longrightarrow> Stop rn = Inr (False, rn)"
  by (simp add: Stop_def)

lemma Stop_calls_closed: "stopch rn \<Longrightarrow> Stop_calls n rn = Inr (replicate n False, rn)"
  by (induction n) (simp_all add: Stop_closed)

lemma Stop_fresh:
  "Stop (NewRunner tgt a) = Inr (True, (NewRunner tgt a)\<lparr>stopch := True, stopOnce := True\<rparr>)"
  by (simp add: Stop_def stopOnce_Do_def close_chan_def NewRunner_def)

text \<open>
  C6. On a new runner the first call of \<open>Stop\<close> closes the stop channel and returns
  true; each of any number of calls after it returns false and changes nothing; and no
  call of \<open>Stop\<close>, in any state of the runner, panics (a close of a closed channel would).
\<close>

theorem Stop_idempotent:
  "Stop_calls (Suc n) (NewRunner tgt a)
     = Inr (True # replicate n False, (NewRunner tgt a)\<lparr>stopch := True, stopOnce := True\<rparr>)
   \<and> \<not> stopch (NewRunner tgt a)
   \<and> Stop rn \<noteq> Inl p"
  by (simp add: Stop_fresh Stop_calls_closed Stop_never_panics) (simp add: NewRunner_def)

lemma sendRequest_fields:
  "Success (fst (sendRequest t0 oc t1 l)) = False"
  "Seq (fst (sendRequest t0 oc t1 l)) = seq l"
  "Timestamp (fst (sendRequest t0 oc t1 l)) = time_Add (began l) (time_Since t0 (began l))"
  "seq (snd (sendRequest t0 oc t1 l)) = seq l + 1"
  by (cases oc; simp add: sendRequest_def sendRequest_locked_def sendRequest_rest_def
      sendRequest_body_def sendRequest_deferred_def zero_Result_def Let_def)+

lemma sendRequest_error:
  "Error (fst (sendRequest t0 (BuildError e) t1 l)) = e"
  "Code (fst (sendRequest t0 (BuildError e) t1 l)) = 0"
  "Error (fst (sendRequest t0 (TransportError e) t1 l)) = e"
  "Code (fst (sendRequest t0 (TransportError e) t1 l)) = 0"
  by (simp_all add: sendRequest_def sendRequest_locked_def sendRequest_rest_def
      sendRequest_body_def sendRequest_deferred_def zero_Result_def)

lemma uint_status_code:
  assumes "0 \<le> code" and "code < 65536"
  shows "uint (word_of_int code :: 16 word) = code"
  using assms by (simp add: uint_word_of_int take_bit_int_eq_self)

lemma sendRequest_response:
  assumes "0 \<le> code" and "code < 65536"
  shows "uint (Code (fst (sendRequest t0 (Response code status) t1 l))) = code"
    and "Error (fst (sendRequest t0 (Response code status) t1 l))
           = (if code < 200 \<or> 400 \<le> code then status else [])"
proof -
  have u: "uint (word_of_int code :: 16 word) = code"
    using assms by (rule uint_status_code)
  have lo: "(word_of_int code :: 16 word) < 200 \<longleftrightarrow> code < 200"
    by (simp add: word_less_def u)
  have hi: "(400 :: 16 word) \<le> word_of_int code \<longleftrightarrow> 400 \<le> code"
    by (simp add: word_le_def u)
  show "uint (Code (fst (sendRequest t0 (Response code status) t1 l))) = code"
    by (simp add: sendRequest_def sendRequest_locked_def sendRequest_rest_def
        sendRequest_body_def sendRequest_deferred_def zero_Result_def Let_def u)
  show "Error (fst (sendRequest t0 (Response code status) t1 l))
           = (if code < 200 \<or> 400 \<le> code then status else [])"
    by (simp add: sendRequest_def sendRequest_locked_def sendRequest_rest_def
        sendRequest_body_def sendRequest_deferred_def zero_Result_def Let_def lo hi)
qed

text \<open>
  C4: no path of \<open>sendRequest\<close> assigns \<open>result.Success\<close>. A request built and
  transported without error whose response has status 200 yields a result with the code
  200, an empty error and \<open>Success = false\<close>.
\<close>

theorem sendRequest_Success_false:
  "Success (fst (sendRequest t0 (Response 200 ''200 OK'') t1 l)) = False
   \<and> Code (fst (sendRequest t0 (Response 200 ''200 OK'') t1 l)) = 200
   \<and> Error (fst (sendRequest t0 (Response 200 ''200 OK'') t1 l)) = []"
  by (simp add: sendRequest_def sendRequest_locked_def sendRequest_rest_def
      sendRequest_body_def sendRequest_deferred_def zero_Result_def Let_def)

text \<open>
  C8. A request that cannot be built, and one whose transport fails, each yield a result
  with \<open>Success = false\<close>, the status code 0 and the error text; a response whose status
  code (one that fits \<open>uint16\<close>) is outside 200 to 399 yields a result with that code and
  the status line as its error; a response with a code from 200 to 399 yields that code
  and an empty error; and whatever the outcome, the worker goes on to push its result:
  nothing else in the system changes.
\<close>

theorem sendRequest_outcomes:
  "Success (fst (sendRequest t0 (BuildError e) t1 l)) = False
   \<and> Code (fst (sendRequest t0 (BuildError e) t1 l)) = 0
   \<and> Error (fst (sendRequest t0 (BuildError e) t1 l)) = e
   \<and> Success (fst (sendRequest t0 (TransportError e) t1 l)) = False
   \<and> Code (fst (sendRequest t0 (TransportError e) t1 l)) = 0
   \<and> Error (fst (sendRequest t0 (TransportError e) t1 l)) = e
   \<and> (0 \<le> bad \<and> bad < 65536 \<and> (bad < 200 \<or> 400 \<le> bad) \<longrightarrow>
        uint (Code (fst (sendRequest t0 (Response bad status) t1 l))) = bad
        \<and> Error (fst (sendRequest t0 (Response bad status) t1 l)) = status)
   \<and> (200 \<le> good \<and> good < 400 \<longrightarrow>
        uint (Code (fst (sendRequest t0 (Response good status) t1 l))) = good
        \<and> Error (fst (sendRequest t0 (Response good status) t1 l)) = [])
   \<and> (crashed s = None \<and> i < length (pool s) \<and> pool s ! i = InFlight res \<longrightarrow>
        step s (Complete i oc)
          = Some (s\<lparr>pool := (pool s)[i := Pushing (sendRequest_rest (now s) oc res)]\<rparr>))"
proof -
  have "step s (Complete i oc)
          = Some (s\<lparr>pool := (pool s)[i := Pushing (sendRequest_rest (now s) oc res)]\<rparr>)"
    if "crashed s = None" and "i < length (pool s)" and "pool s ! i = InFlight res"
    using that by (simp add: step_def complete_def)
  moreover have "uint (Code (fst (sendRequest t0 (Response good status) t1 l))) = good
        \<and> Error (fst (sendRequest t0 (Response good status) t1 l)) = []"
    if "200 \<le> good" and "good < 400"
    using that sendRequest_response [of good t0 status t1 l] by simp
  moreover have "uint (Code (fst (sendRequest t0 (Response bad status) t1 l))) = bad
        \<and> Error (fst (sendRequest t0 (Response bad status) t1 l)) = status"
    if "0 \<le> bad" and "bad < 65536" and "bad < 200 \<or> 400 \<le> bad"
    using that sendRequest_response [of bad t0 status t1 l] by auto
  ultimately show ?thesis
    using sendRequest_fields(1) [of t0 _ t1 l] sendRequest_error [of t0 e t1 l] by blast
qed

section \<open>Steps of the system\<close>

text \<open>Every step is one of these, with the state it leads to.\<close>

lemma stepE [consumes 1, case_names Tick Start OpenOk OpenErr Recv ClosedPanic ClosedOk
    SignalAgain SignalFirst OncePanic OnceOk
    Top Wake CloseTicksPanic CloseTicks Joined CloseResultsPanic CloseResults
    StopAlready StopOpen DispOncePanic DispOnce
    HandoffPanic Handoff StopSeen Spawn Park ExitPanic Exit Lock Complete PushPanic]:
  assumes "step s act = Some s'"
  obtains
    d where "act = Tick d" "0 \<le> d" "s' = s\<lparr>now := now s + d\<rparr>"
  | "act = CallStartTest" "main s = RunStart"
      "s' = s\<lparr>lt := \<lparr>began = now s, seq = 0\<rparr>, workers := Workers (args (runner s)),
                pool := replicate (unat (Workers (args (runner s)))) AtRange,
                wg := int (unat (Workers (args (runner s)))),
                count_var := 0, disp := LoopTop, main := RunCreateWriter\<rparr>"
  | oserr where "act = OpenOutput oserr" "main s = RunCreateWriter"
      "createWriter oserr (OutputFile (args (runner s))) = None" "s' = s\<lparr>main := RunLoop\<rparr>"
  | oserr err where "act = OpenOutput oserr" "main s = RunCreateWriter"
      "createWriter oserr (OutputFile (args (runner s))) = Some err"
      "s' = s\<lparr>main := RunReturned
               (Some (''error opening '' @ OutputFile (args (runner s)) @ '': '' @ err))\<rparr>"
  | i werr res where "act = Recv i werr" "main s = RunLoop" "i < length (pool s)"
      "\<not> results_closed s" "pool s ! i = Pushing res"
      "s' = s\<lparr>pool := (pool s)[i := AtRange], resultList := resultList s @ [res],
               trace := trace s @ [Pushed res],
               main := (case werr of None \<Rightarrow> RunLoop | Some e \<Rightarrow> RunReturned (Some e))\<rparr>"
  | e where "act = RecvClosed" "main s = RunLoop" "results_closed s"
      "printResultSummary (resultList s) = Inl e" "s' = s\<lparr>crashed := Some e\<rparr>"
  | "act = RecvClosed" "main s = RunLoop" "results_closed s" "s' = s\<lparr>main := RunReturned None\<rparr>"
  | "act = Signal" "main s = RunLoop" "stopch (runner s)" "s' = s\<lparr>main := RunReturned None\<rparr>"
  | "act = Signal" "main s = RunLoop" "\<not> stopch (runner s)" "s' = s\<lparr>main := RunStopOnce\<rparr>"
  | e where "act = MainStopOnce" "main s = RunStopOnce" "stopOnce_Do (runner s) = Inl e"
      "s' = s\<lparr>crashed := Some e\<rparr>"
  | rn where "act = MainStopOnce" "main s = RunStopOnce" "stopOnce_Do (runner s) = Inr rn"
      "s' = s\<lparr>runner := rn, main := RunLoop\<rparr>"
  | "act = Disp" "disp s = LoopTop" "s' = loop_top s"
  | t where "act = Disp" "disp s = Sleeping t" "t \<le> now s"
      "s' = s\<lparr>disp := (if AutoScale (args (runner s)) \<and> workers s < MaxWorkers (args (runner s))
                         then Select1 else Select2)\<rparr>"
  | "act = Disp" "disp s = CloseTicks" "ticks_closed s" "s' = s\<lparr>crashed := Some CloseOfClosedChannel\<rparr>"
  | "act = Disp" "disp s = CloseTicks" "\<not> ticks_closed s"
      "s' = s\<lparr>ticks_closed := True, disp := WgWait, trace := trace s @ [TicksClosed]\<rparr>"
  | "act = Disp" "disp s = WgWait" "wg s = 0"
      "s' = s\<lparr>disp := CloseResults, trace := trace s @ [WorkersJoined]\<rparr>"
  | "act = Disp" "disp s = CloseResults" "results_closed s"
      "s' = s\<lparr>crashed := Some CloseOfClosedChannel\<rparr>"
  | "act = Disp" "disp s = CloseResults" "\<not> results_closed s"
      "s' = s\<lparr>results_closed := True, disp := StopSelect, trace := trace s @ [ResultsClosed]\<rparr>"
  | "act = Disp" "disp s = StopSelect" "stopch (runner s)" "s' = finish s"
  | "act = Disp" "disp s = StopSelect" "\<not> stopch (runner s)" "s' = s\<lparr>disp := StopOnce\<rparr>"
  | e where "act = Disp" "disp s = StopOnce" "stopOnce_Do (runner s) = Inl e"
      "s' = s\<lparr>crashed := Some e\<rparr>"
  | rn where "act = Disp" "disp s = StopOnce" "stopOnce_Do (runner s) = Inr rn"
      "s' = finish (s\<lparr>runner := rn\<rparr>)"
  | i where "act = Handoff i" "disp s = Select1 \<or> disp s = Select2" "i < length (pool s)"
      "pool s ! i = Parked" "ticks_closed s" "s' = s\<lparr>crashed := Some SendOnClosedChannel\<rparr>"
  | i where "act = Handoff i" "disp s = Select1 \<or> disp s = Select2" "i < length (pool s)"
      "pool s ! i = Parked" "\<not> ticks_closed s"
      "s' = s\<lparr>pool := (pool s)[i := GotTick], count_var := count_var s + 1, disp := LoopTop\<rparr>"
  | "act = StopSeen" "disp s = Select1 \<or> disp s = Select2" "stopch (runner s)"
      "s' = s\<lparr>disp := CloseTicks\<rparr>"
  | "act = SpawnDefault" "disp s = Select1" "Parked \<notin> set (pool s)" "\<not> stopch (runner s)"
      "s' = s\<lparr>workers := workers s + 1, wg := wg s + 1, pool := pool s @ [AtRange],
                disp := Select2\<rparr>"
  | i where "act = Park i" "i < length (pool s)" "pool s ! i = AtRange"
      "s' = s\<lparr>pool := (pool s)[i := Parked]\<rparr>"
  | i where "act = ExitWorker i" "i < length (pool s)" "pool s ! i = Parked" "ticks_closed s"
      "wg s - 1 < 0" "s' = s\<lparr>crashed := Some NegativeWaitGroup\<rparr>"
  | i where "act = ExitWorker i" "i < length (pool s)" "pool s ! i = Parked" "ticks_closed s"
      "\<not> wg s - 1 < 0" "s' = s\<lparr>pool := (pool s)[i := Exited], wg := wg s - 1\<rparr>"
  | i res l' where "act = Lock i" "i < length (pool s)" "pool s ! i = GotTick"
      "sendRequest_locked (now s) (lt s) = (res, l')"
      "s' = s\<lparr>pool := (pool s)[i := InFlight res], lt := l',
               issued := issued s @ [(Seq res, Timestamp res)]\<rparr>"
  | i oc res where "act = Complete i oc" "i < length (pool s)" "pool s ! i = InFlight res"
      "s' = s\<lparr>pool := (pool s)[i := Pushing (sendRequest_rest (now s) oc res)]\<rparr>"
  | i res where "act = PushClosed i" "i < length (pool s)" "results_closed s"
      "pool s ! i = Pushing res" "s' = s\<lparr>crashed := Some SendOnClosedChannel\<rparr>"
proof (cases act)
  case (Tick d)
  then show ?thesis using assms that(1) by (auto simp: step_def split: if_splits)
next
  case CallStartTest
  then show ?thesis using assms that(2) by (auto simp: step_def StartTest_def split: if_splits)
next
  case (OpenOutput oserr)
  then show ?thesis using assms that(3,4)
    by (auto simp: step_def open_output_def split: if_splits option.splits)
next
  case (Recv i werr)
  then show ?thesis using assms that(5)
    by (auto simp: step_def recv_result_def split: if_splits wpc.splits)
next
  case RecvClosed
  then have rc: "recv_closed s = Some s'"
    using assms by (simp add: step_def split: if_splits)
  then have g: "main s = RunLoop" "results_closed s"
    by (simp_all add: recv_closed_def split: if_splits)
  show ?thesis
  proof (cases "printResultSummary (resultList s)")
    case (Inl e)
    then show ?thesis using RecvClosed g rc that(6) by (simp add: recv_closed_def)
  next
    case (Inr x)
    then show ?thesis using RecvClosed g rc that(7) by (simp add: recv_closed_def)
  qed
next
  case Signal
  then show ?thesis using assms that(8,9)
    by (auto simp: step_def signal_def split: if_splits)
next
  case MainStopOnce
  then show ?thesis using assms that(10,11)
    by (auto simp: step_def main_stopOnce_def split: if_splits sum.splits)
next
  case Disp
  then have d: "disp_step s = Some s'" using assms by (simp add: step_def split: if_splits)
  show ?thesis
  proof (cases "disp s")
    case NotStarted
    then show ?thesis using d by (simp add: disp_step_def)
  next
    case LoopTop
    then show ?thesis using d Disp that(12) by (simp add: disp_step_def)
  next
    case (Sleeping t)
    then show ?thesis using d Disp that(13) by (simp add: disp_step_def split: if_splits)
  next
    case Select1
    then show ?thesis using d by (simp add: disp_step_def)
  next
    case Select2
    then show ?thesis using d by (simp add: disp_step_def)
  next
    case CloseTicks
    then show ?thesis using d Disp that(14,15)
      by (auto simp: disp_step_def close_chan_def split: if_splits)
  next
    case WgWait
    then show ?thesis using d Disp that(16) by (simp add: disp_step_def split: if_splits)
  next
    case CloseResults
    then show ?thesis using d Disp that(17,18)
      by (auto simp: disp_step_def close_chan_def split: if_splits)
  next
    case StopSelect
    then show ?thesis using d Disp that(19,20) by (auto simp: disp_step_def split: if_splits)
  next
    case StopOnce
    then show ?thesis using d Disp that(21,22)
      by (auto simp: disp_step_def split: sum.splits)
  next
    case Finished
    then show ?thesis using d by (simp add: disp_step_def)
  qed
next
  case (Handoff i)
  then show ?thesis using assms that(23,24)
    by (auto simp: step_def handoff_def split: if_splits)
next
  case StopSeen
  then show ?thesis using assms that(25) by (auto simp: step_def stop_seen_def split: if_splits)
next
  case SpawnDefault
  then show ?thesis using assms that(26)
    by (auto simp: step_def spawn_default_def split: if_splits)
next
  case (Park i)
  then show ?thesis using assms that(27) by (auto simp: step_def park_def split: if_splits)
next
  case (ExitWorker i)
  then show ?thesis using assms that(28,29)
    by (auto simp: step_def exit_worker_def split: if_splits)
next
  case (Lock i)
  then show ?thesis using assms that(30)
    by (auto simp: step_def lock_worker_def split: if_splits prod.splits)
next
  case (Complete i oc)
  then show ?thesis using assms that(31)
    by (auto simp: step_def complete_def split: if_splits wpc.splits)
next
  case (PushClosed i)
  then show ?thesis using assms that(32)
    by (auto simp: step_def push_closed_def split: if_splits wpc.splits)
qed


lemma loop_topE [consumes 0, case_names Expired Panic Stop Sleep]:
  obtains
    "0 < sint (Duration (args (runner s)))"
      "sint (Duration (args (runner s))) < sint (time_Since (now s) (began (lt s)))"
      "loop_top s = s\<lparr>disp := CloseTicks\<rparr>"
  | e where "pace (args (runner s)) (time_Since (now s) (began (lt s))) (count_var s) = Inl e"
      "loop_top s = s\<lparr>disp := CloseTicks, panicking := Some e\<rparr>"
  | w where "pace (args (runner s)) (time_Since (now s) (began (lt s))) (count_var s) = Inr (w, True)"
      "loop_top s = s\<lparr>disp := CloseTicks\<rparr>"
  | w where "pace (args (runner s)) (time_Since (now s) (began (lt s))) (count_var s) = Inr (w, False)"
      "loop_top s = s\<lparr>disp := Sleeping (now s + max 0 (sint w))\<rparr>"
proof (cases "0 < sint (Duration (args (runner s)))
    \<and> sint (Duration (args (runner s))) < sint (time_Since (now s) (began (lt s)))")
  case True
  then show ?thesis using that(1) by (simp add: loop_top_def Let_def)
next
  case False
  then have nd: "loop_top s =
      (case pace (args (runner s)) (time_Since (now s) (began (lt s))) (count_var s) of
         Inl e \<Rightarrow> s\<lparr>disp := CloseTicks, panicking := Some e\<rparr>
       | Inr (wait, stop) \<Rightarrow>
           if stop then s\<lparr>disp := CloseTicks\<rparr>
           else s\<lparr>disp := Sleeping (now s + max 0 (sint wait))\<rparr>)"
    by (auto simp: loop_top_def Let_def)
  show ?thesis
  proof (cases "pace (args (runner s)) (time_Since (now s) (began (lt s))) (count_var s)")
    case (Inl e)
    then show ?thesis using nd that(2) by simp
  next
    case (Inr p)
    then show ?thesis using nd that(3,4) by (cases p) auto
  qed
qed

lemma live_update:
  "i < length ws \<Longrightarrow> ws ! i \<noteq> Exited \<Longrightarrow> w \<noteq> Exited \<Longrightarrow> live (ws[i := w]) = live ws"
  unfolding live_def
proof (induction ws arbitrary: i)
  case Nil
  then show ?case by simp
next
  case (Cons y ys)
  then show ?case by (cases i) simp_all
qed

lemma live_exit:
  "i < length ws \<Longrightarrow> ws ! i \<noteq> Exited \<Longrightarrow> Suc (live (ws[i := Exited])) = live ws"
  unfolding live_def
proof (induction ws arbitrary: i)
  case Nil
  then show ?case by simp
next
  case (Cons y ys)
  then show ?case by (cases i) simp_all
qed

lemma live_zero: "live ws = 0 \<longleftrightarrow> (\<forall>w \<in> set ws. w = Exited)"
  by (simp add: live_def filter_empty_conv)

lemma live_full: "Exited \<notin> set ws \<Longrightarrow> live ws = length ws"
  unfolding live_def by (induction ws) auto

lemma live_snoc: "w \<noteq> Exited \<Longrightarrow> live (ws @ [w]) = Suc (live ws)"
  by (simp add: live_def)

lemma live_replicate: "live (replicate n AtRange) = n"
  by (simp add: live_def)

lemma in_set_update:
  "w \<in> set (xs[i := x]) \<Longrightarrow> w = x \<or> w \<in> set xs"
  using set_update_subset_insert [of xs i x] by auto

lemma inv_flags_init: "inv_flags (init tgt a t0)"
  by (simp add: inv_flags_def init_def NewRunner_def)

lemma stopOnce_Do_Inr:
  "stopOnce_Do rn = Inr rn' \<Longrightarrow> stopch rn = stopOnce rn \<Longrightarrow>
     stopch rn' \<and> stopOnce rn' \<and> target rn' = target rn \<and> args rn' = args rn"
  by (auto simp: stopOnce_Do_def close_chan_def split: if_splits)

lemma stopOnce_Do_Inl:
  "stopOnce_Do rn = Inl e \<Longrightarrow> stopch rn = stopOnce rn \<Longrightarrow> False"
  by (auto simp: stopOnce_Do_def close_chan_def split: if_splits)

lemma inv_flags_step:
  assumes "step s act = Some s'" and "inv_flags s"
  shows "inv_flags s'"
  using assms
proof (cases rule: stepE)
  case Top
  then show ?thesis using assms(2)
    by (cases rule: loop_topE [of s]) (simp_all add: inv_flags_def)
next
  case (OnceOk rn)
  then show ?thesis using assms(2) stopOnce_Do_Inr [of "runner s" rn]
    by (simp add: inv_flags_def)
next
  case (DispOnce rn)
  then show ?thesis using assms(2) stopOnce_Do_Inr [of "runner s" rn]
    by (simp add: inv_flags_def finish_def)
qed (auto simp: inv_flags_def finish_def split: option.splits)

lemma inv_pool_init: "inv_pool (init tgt a t0)"
  by (simp add: inv_pool_def init_def live_def)

lemma inv_pool_step:
  assumes "step s act = Some s'" and "inv_pool s" and "inv_flags s"
  shows "inv_pool s'"
  using assms(1)
proof (cases rule: stepE)
  case Start
  then show ?thesis using assms(2,3)
    by (simp add: inv_pool_def inv_flags_def live_replicate)
next
  case (Recv i werr res)
  then show ?thesis using assms(2,3) live_update [of i "pool s" AtRange]
    by (auto simp: inv_pool_def inv_flags_def live_zero split: option.splits dest!: in_set_update)
next
  case Top
  then show ?thesis using assms(2,3)
    by (cases rule: loop_topE [of s]) (simp_all add: inv_pool_def inv_flags_def)
next
  case CloseTicks
  then show ?thesis using assms(2,3) by (simp add: inv_pool_def inv_flags_def)
next
  case Joined
  then show ?thesis using assms(2,3) by (simp add: inv_pool_def inv_flags_def)
next
  case (Handoff i)
  then show ?thesis using assms(2,3) live_update [of i "pool s" GotTick]
    by (auto simp: inv_pool_def inv_flags_def dest!: in_set_update)
next
  case Spawn
  then show ?thesis using assms(2,3)
    by (auto simp: inv_pool_def inv_flags_def live_snoc)
next
  case (Park i)
  then show ?thesis using assms(2,3) live_update [of i "pool s" Parked]
    by (auto simp: inv_pool_def inv_flags_def live_zero dest!: in_set_update)
next
  case (Exit i)
  then show ?thesis using assms(2,3) live_exit [of i "pool s"]
    by (auto simp: inv_pool_def inv_flags_def)
next
  case (Lock i res l')
  then show ?thesis using assms(2,3) live_update [of i "pool s" "InFlight res"]
    by (auto simp: inv_pool_def inv_flags_def live_zero dest!: in_set_update)
next
  case (Complete i oc res)
  then show ?thesis using assms(2,3)
      live_update [of i "pool s" "Pushing (sendRequest_rest (now s) oc res)"]
    by (auto simp: inv_pool_def inv_flags_def live_zero dest!: in_set_update)
qed (use assms(2,3) in \<open>auto simp: inv_pool_def inv_flags_def finish_def\<close>)

section \<open>Invariants of the running system\<close>

lemma dropWhile_snoc_subset:
  "set (dropWhile P (xs @ [e])) \<subseteq> insert e (set (dropWhile P xs))"
  by (induction xs) auto

lemma dropWhile_snoc_none:
  "\<forall>x \<in> set xs. P x \<Longrightarrow> P e \<Longrightarrow> dropWhile P (xs @ [e]) = []"
  by (induction xs) auto

lemma inv_trace_not_closed:
  assumes "inv_trace s" and "stage (disp s) < 3"
  shows "\<forall>e \<in> set (trace s). e \<noteq> ResultsClosed"
proof
  fix e assume e: "e \<in> set (trace s)"
  show "e \<noteq> ResultsClosed"
  proof
    assume "e = ResultsClosed"
    then have "ResultsClosed \<in> set (filter (\<lambda>e. \<not> is_push e) (trace s))"
      using e by simp
    moreover have "filter (\<lambda>e. \<not> is_push e) (trace s) = take (stage (disp s)) shutdown_order"
      using assms(1) by (simp add: inv_trace_def)
    ultimately have "ResultsClosed \<in> set (take (stage (disp s)) shutdown_order)"
      by (simp only:)
    moreover have "stage (disp s) = 0 \<or> stage (disp s) = 1 \<or> stage (disp s) = 2"
      using assms(2) by linarith
    ultimately show False by (auto simp: shutdown_order_def)
  qed
qed

lemma inv_trace_init: "inv_trace (init tgt a t0)"
  by (simp add: inv_trace_def init_def)

lemma inv_trace_append:
  assumes "inv_trace s" and "\<not> is_push e"
    and "take (stage d) shutdown_order = take (stage (disp s)) shutdown_order @ [e]"
  shows "inv_trace (s\<lparr>disp := d, trace := trace s @ [e]\<rparr>)"
  using assms dropWhile_snoc_subset [of "\<lambda>e. e \<noteq> ResultsClosed" "trace s" e]
  by (auto simp: inv_trace_def)

lemma inv_trace_step:
  assumes "step s act = Some s'" and "inv_trace s" and "inv_flags s"
  shows "inv_trace s'"
  using assms(1)
proof (cases rule: stepE)
  case (Recv i werr res)
  have "stage (disp s) < 3"
    using Recv(4) assms(3) by (simp add: inv_flags_def)
  then have "\<forall>e \<in> set (trace s). e \<noteq> ResultsClosed"
    using assms(2) by (rule inv_trace_not_closed [rotated])
  then have "dropWhile (\<lambda>e. e \<noteq> ResultsClosed) (trace s @ [Pushed res]) = []"
    by (intro dropWhile_snoc_none) simp_all
  then show ?thesis using Recv assms(2) by (simp add: inv_trace_def)
next
  case Top
  then show ?thesis using assms(2)
    by (cases rule: loop_topE [of s]) (simp_all add: inv_trace_def)
next
  case CloseTicks
  then show ?thesis using inv_trace_append [OF assms(2), of TicksClosed WgWait] assms(2)
    by (simp add: shutdown_order_def inv_trace_def)
next
  case Joined
  then show ?thesis using inv_trace_append [OF assms(2), of WorkersJoined CloseResults] 
    by (simp add: shutdown_order_def inv_trace_def)
next
  case CloseResults
  then show ?thesis using inv_trace_append [OF assms(2), of ResultsClosed StopSelect]
    by (simp add: shutdown_order_def inv_trace_def)
next
  case StopAlready
  then show ?thesis using inv_trace_append [OF assms(2), of StopTriggered Finished]
    by (simp add: shutdown_order_def inv_trace_def finish_def)
next
  case (DispOnce rn)
  then show ?thesis using inv_trace_append [OF assms(2), of StopTriggered Finished]
    by (simp add: shutdown_order_def inv_trace_def finish_def)
qed (use assms(2,3) in \<open>auto simp: inv_trace_def inv_flags_def\<close>)


lemma live_pos: "i < length ws \<Longrightarrow> ws ! i \<noteq> Exited \<Longrightarrow> 0 < live ws"
  using live_zero [of ws] nth_mem [of i ws] by (cases "live ws") auto

lemma i64_div_Inl: "i64_div x y = Inl e \<Longrightarrow> e = DivideByZero"
  by (simp add: i64_div_def split: if_splits)

lemma pace_Inl: "pace a e c = Inl p \<Longrightarrow> p = DivideByZero"
  by (simp add: pace_unfold split: if_splits)

lemma printResultSummary_Inl: "printResultSummary rs = Inl e \<Longrightarrow> e = DivideByZero"
  by (auto simp: printResultSummary_def dest: i64_div_Inl split: prod.splits sum.splits)

lemma inv_crash_init: "inv_crash (init tgt a t0)"
  by (simp add: inv_crash_def init_def)

lemma inv_crash_step:
  assumes "step s act = Some s'" and "inv_crash s" and "inv_flags s" and "inv_pool s"
  shows "inv_crash s'"
  using assms(1)
proof (cases rule: stepE)
  case (ClosedPanic e)
  then show ?thesis using assms(2) printResultSummary_Inl [of "resultList s" e]
    by (simp add: inv_crash_def)
next
  case (OncePanic e)
  then show ?thesis using assms(3) stopOnce_Do_Inl [of "runner s" e]
    by (simp add: inv_flags_def)
next
  case Top
  then show ?thesis using assms(2)
    by (cases rule: loop_topE [of s]) (auto simp: inv_crash_def dest: pace_Inl)
next
  case CloseTicksPanic
  then show ?thesis using assms(3) by (simp add: inv_flags_def)
next
  case CloseResultsPanic
  then show ?thesis using assms(3) by (simp add: inv_flags_def)
next
  case (DispOncePanic e)
  then show ?thesis using assms(3) stopOnce_Do_Inl [of "runner s" e]
    by (simp add: inv_flags_def)
next
  case (HandoffPanic i)
  then show ?thesis using assms(3) by (auto simp: inv_flags_def)
next
  case (ExitPanic i)
  then show ?thesis using assms(4) live_pos [of i "pool s"]
    by (simp add: inv_pool_def)
next
  case (PushPanic i res)
  then show ?thesis using assms(3,4) live_pos [of i "pool s"]
    by (simp add: inv_pool_def inv_flags_def)
qed (use assms(2) in \<open>auto simp: inv_crash_def finish_def\<close>)

lemma stopOnce_Do_args:
  "stopOnce_Do rn = Inr rn' \<Longrightarrow> target rn' = target rn \<and> args rn' = args rn"
  by (auto simp: stopOnce_Do_def close_chan_def split: if_splits)

lemma inv_workers_init: "inv_workers tgt a (init tgt a t0)"
  by (simp add: inv_workers_def init_def NewRunner_def)

lemma unat_Suc_word:
  fixes w :: "'a::len word"
  assumes "w \<noteq> - 1"
  shows "unat (w + 1) = Suc (unat w)"
proof -
  have "1 + w \<noteq> 0" using assms max_word_wrap [of w] by (auto simp: add.commute)
  then have "unat (1 + w) = Suc (unat w)" by (rule unatSuc)
  then show ?thesis by (simp add: add.commute)
qed

lemma word_less_Suc:
  fixes w m :: "'a::len word"
  assumes "w < m"
  shows "unat (w + 1) = Suc (unat w)" and "w + 1 \<le> m"
proof -
  have "w \<noteq> - 1" using assms by (auto simp: linorder_not_less)
  then show "unat (w + 1) = Suc (unat w)" by (rule unat_Suc_word)
  show "w + 1 \<le> m" using assms by (rule inc_le)
qed

lemma inv_workers_step:
  assumes "step s act = Some s'" and "inv_workers tgt a s"
  shows "inv_workers tgt a s'"
  using assms(1)
proof (cases rule: stepE)
  case (OnceOk rn)
  then show ?thesis using assms(2) stopOnce_Do_args [of "runner s" rn]
    by (simp add: inv_workers_def)
next
  case Top
  then show ?thesis using assms(2)
    by (cases rule: loop_topE [of s]) (simp_all add: inv_workers_def)
next
  case (DispOnce rn)
  then show ?thesis using assms(2) stopOnce_Do_args [of "runner s" rn]
    by (simp add: inv_workers_def finish_def)
next
  case Spawn
  then show ?thesis using assms(2) word_less_Suc [of "workers s" "MaxWorkers a"]
    by (simp add: inv_workers_def)
qed (use assms(2) in \<open>auto simp: inv_workers_def finish_def split: option.splits\<close>)

lemma filter_update_same:
  "i < length ws \<Longrightarrow> P (ws ! i) = P y \<Longrightarrow> length (filter P (ws[i := y])) = length (filter P ws)"
proof (induction ws arbitrary: i)
  case Nil
  then show ?case by simp
next
  case (Cons w ws)
  then show ?case by (cases i) auto
qed

lemma filter_update_gain:
  "i < length ws \<Longrightarrow> \<not> P (ws ! i) \<Longrightarrow> P y
     \<Longrightarrow> length (filter P (ws[i := y])) = Suc (length (filter P ws))"
proof (induction ws arbitrary: i)
  case Nil
  then show ?case by simp
next
  case (Cons w ws)
  then show ?case by (cases i) auto
qed

lemma filter_update_lose:
  "i < length ws \<Longrightarrow> P (ws ! i) \<Longrightarrow> \<not> P y
     \<Longrightarrow> Suc (length (filter P (ws[i := y]))) = length (filter P ws)"
proof (induction ws arbitrary: i)
  case Nil
  then show ?case by simp
next
  case (Cons w ws)
  then show ?case by (cases i) auto
qed

lemma holding_update:
  "i < length ws \<Longrightarrow> holding (ws[i := y]) + held (ws ! i) = holding ws + held y"
  unfolding holding_def
proof (induction ws arbitrary: i)
  case Nil
  then show ?case by simp
next
  case (Cons w ws)
  then show ?case by (cases i) (auto simp: ac_simps)
qed

lemma holding_replicate: "holding (replicate n AtRange) = {#}"
  by (induction n) (simp_all add: holding_def)

lemma holding_snoc: "holding (ws @ [w]) = holding ws + held w"
  by (simp add: holding_def)

lemma holding_Nil: "holding [] = {#}"
  by (simp add: holding_def)

lemma size_holding: "size (holding ws) \<le> length ws"
  unfolding holding_def
proof (induction ws)
  case Nil
  then show ?case by simp
next
  case (Cons w ws)
  then show ?case by (cases w) simp_all
qed

lemma holding_exited: "\<forall>w \<in> set ws. w = Exited \<Longrightarrow> holding ws = {#}"
  unfolding holding_def by (induction ws) simp_all

lemma stamp_of_rest: "stamp_of (sendRequest_rest n oc res) = stamp_of res"
  by (cases oc)
    (simp_all add: stamp_of_def sendRequest_rest_def sendRequest_body_def
      sendRequest_deferred_def Let_def)

lemma sendRequest_locked_eq:
  "sendRequest_locked n l = (res, l')
     \<Longrightarrow> Seq res = seq l \<and> Timestamp res = time_Add (began l) (time_Since n (began l))
         \<and> l' = l\<lparr>seq := seq l + 1\<rparr>"
  by (auto simp: sendRequest_locked_def)

lemma inv_seq_init: "inv_seq (init tgt a t0)"
  by (simp add: inv_seq_def init_def holding_Nil)

lemma inv_seq_step:
  assumes "step s act = Some s'" and "inv_seq s" and "inv_pool s"
  shows "inv_seq s'"
  using assms(1)
proof (cases rule: stepE)
  case Start
  then show ?thesis using assms(2)
    by (simp add: inv_seq_def holding_replicate)
next
  case (Recv i werr res)
  then show ?thesis using assms(2,3) holding_update [of i "pool s" AtRange]
      filter_update_same [of i "pool s" "\<lambda>w. w = GotTick" AtRange]
    by (auto simp: inv_seq_def inv_pool_def split: option.splits)
next
  case Top
  then show ?thesis using assms(2)
    by (cases rule: loop_topE [of s]) (auto simp: inv_seq_def dest: pace_continue_count)
next
  case (Handoff i)
  then show ?thesis using assms(2,3) holding_update [of i "pool s" GotTick]
      filter_update_gain [of i "pool s" "\<lambda>w. w = GotTick" GotTick]
      unat_Suc_word [of "count_var s"]
    by (auto simp: inv_seq_def inv_pool_def)
next
  case Spawn
  then show ?thesis using assms(2,3)
    by (auto simp: inv_seq_def inv_pool_def holding_snoc)
next
  case (Park i)
  then show ?thesis using assms(2,3) holding_update [of i "pool s" Parked]
      filter_update_same [of i "pool s" "\<lambda>w. w = GotTick" Parked]
    by (auto simp: inv_seq_def inv_pool_def)
next
  case (Exit i)
  then show ?thesis using assms(2,3) holding_update [of i "pool s" Exited]
      filter_update_same [of i "pool s" "\<lambda>w. w = GotTick" Exited]
    by (auto simp: inv_seq_def inv_pool_def)
next
  case (Lock i res l')
  then show ?thesis using assms(2,3) holding_update [of i "pool s" "InFlight res"]
      filter_update_lose [of i "pool s" "\<lambda>w. w = GotTick" "InFlight res"]
      sendRequest_locked_eq [of "now s" "lt s" res l']
    by (auto simp: inv_seq_def inv_pool_def stamp_of_def)
next
  case (Complete i oc res)
  then show ?thesis using assms(2,3)
      holding_update [of i "pool s" "Pushing (sendRequest_rest (now s) oc res)"]
      filter_update_same [of i "pool s" "\<lambda>w. w = GotTick" "Pushing (sendRequest_rest (now s) oc res)"]
    by (auto simp: inv_seq_def inv_pool_def stamp_of_rest)
qed (use assms(2) in \<open>auto simp: inv_seq_def finish_def\<close>)

lemma sint_time_Since:
  assumes "t \<le> n"
  shows "sint (time_Since n t) = min (n - t) 9223372036854775807"
proof (cases "n - t > 9223372036854775807")
  case True
  then show ?thesis by (simp add: time_Since_def)
next
  case False
  then have "sint (word_of_int (n - t) :: 64 word) = n - t"
    using assms by (intro sint_word_of_int64) linarith+
  then show ?thesis using False assms by (simp add: time_Since_def)
qed

lemma time_Since_nonneg: "t \<le> n \<Longrightarrow> 0 \<le> sint (time_Since n t)"
  by (simp add: sint_time_Since)

lemma stamp_le: "b \<le> n \<Longrightarrow> time_Add b (time_Since n b) \<le> n"
  by (simp add: time_Add_def sint_time_Since)

lemma stamp_mono:
  "b \<le> n \<Longrightarrow> n \<le> n' \<Longrightarrow> time_Add b (time_Since n b) \<le> time_Add b (time_Since n' b)"
  by (simp add: time_Add_def sint_time_Since)

lemma Latency_rest: "Latency (sendRequest_rest n oc res) = time_Since n (Timestamp res)"
  by (cases oc)
    (simp_all add: sendRequest_rest_def sendRequest_body_def sendRequest_deferred_def Let_def)

lemma worker_timed_mono: "worker_timed n w \<Longrightarrow> n \<le> n' \<Longrightarrow> worker_timed n' w"
  by (cases w) simp_all

lemma inv_time_init: "inv_time (init tgt a t0)"
  by (simp add: inv_time_def init_def)

lemma inv_time_step:
  assumes "step s act = Some s'" and "inv_time s" and "inv_pool s" and "inv_seq s"
  shows "inv_time s'"
  using assms(1)
proof (cases rule: stepE)
  case (Tick d)
  have "clock_stamp s \<le> clock_stamp s'" if "main s \<noteq> RunStart"
    using that assms(2) Tick stamp_mono [of "began (lt s)" "now s" "now s + d"]
    by (simp add: clock_stamp_def inv_time_def)
  moreover have "issued s = []" if "main s = RunStart"
    using that assms(4) by (simp add: inv_seq_def)
  ultimately have "\<forall>p \<in> set (issued s'). snd p \<le> clock_stamp s'"
    using assms(2) Tick by (cases "main s = RunStart") (auto simp: inv_time_def)
  moreover have "\<forall>w \<in> set (pool s'). worker_timed (now s') w"
    using assms(2) Tick worker_timed_mono [of "now s" _ "now s + d"]
    by (auto simp: inv_time_def)
  ultimately show ?thesis using assms(2) Tick by (auto simp: inv_time_def)
next
  case Start
  then show ?thesis using assms(2,4)
    by (simp add: inv_time_def inv_seq_def)
next
  case (Recv i werr res)
  have "worker_timed (now s) (Pushing res)"
    using Recv(3,5) assms(2) nth_mem [of i "pool s"] by (auto simp: inv_time_def)
  then show ?thesis using Recv assms(2,3)
    by (auto simp: inv_time_def inv_pool_def clock_stamp_def split: option.splits dest!: in_set_update)
next
  case Top
  then show ?thesis using assms(2)
    by (cases rule: loop_topE [of s]) (simp_all add: inv_time_def clock_stamp_def)
next
  case (Handoff i)
  then show ?thesis using assms(2,3)
    by (auto simp: inv_time_def inv_pool_def clock_stamp_def dest!: in_set_update)
next
  case (Park i)
  then show ?thesis using assms(2,3)
    by (auto simp: inv_time_def inv_pool_def clock_stamp_def dest!: in_set_update)
next
  case (Exit i)
  then show ?thesis using assms(2,3)
    by (auto simp: inv_time_def inv_pool_def clock_stamp_def dest!: in_set_update)
next
  case (Lock i res l')
  have ne: "main s \<noteq> RunStart"
    using Lock(2) assms(3) by (auto simp: inv_pool_def)
  then have b: "began (lt s) \<le> now s" using assms(2) by (simp add: inv_time_def)
  have eq: "Timestamp res = clock_stamp s" "l' = (lt s)\<lparr>seq := seq (lt s) + 1\<rparr>"
    using sendRequest_locked_eq [OF Lock(4)] by (simp_all add: clock_stamp_def)
  have le: "Timestamp res \<le> now s"
    using b stamp_le [of "began (lt s)" "now s"] by (simp add: eq clock_stamp_def)
  have cs: "clock_stamp s' = clock_stamp s"
    using Lock(5) eq by (simp add: clock_stamp_def)
  have bl: "began l' = began (lt s)" by (simp add: eq(2))
  have "sorted (map snd (issued s) @ [clock_stamp s])"
    using assms(2) by (auto simp: inv_time_def sorted_append)
  then show ?thesis using Lock assms(2) ne le cs eq(1) bl
    by (auto simp: inv_time_def dest!: in_set_update)
next
  case (Complete i oc res)
  have "worker_timed (now s) (InFlight res)"
    using Complete(2,3) assms(2) nth_mem [of i "pool s"] by (auto simp: inv_time_def)
  then have "0 \<le> sint (Latency (sendRequest_rest (now s) oc res))"
    by (simp add: Latency_rest time_Since_nonneg)
  then show ?thesis using Complete assms(2,3)
    by (auto simp: inv_time_def inv_pool_def clock_stamp_def dest!: in_set_update)
qed (use assms(2) in \<open>auto simp: inv_time_def finish_def clock_stamp_def\<close>)

section \<open>Runs keep the invariants\<close>

lemma inv_push_init: "inv_push (init tgt a t0)"
  by (simp add: inv_push_def init_def)

lemma inv_push_step:
  assumes "step s act = Some s'" and "inv_push s"
  shows "inv_push s'"
  using assms(1)
proof (cases rule: stepE)
  case Top
  then show ?thesis using assms(2)
    by (cases rule: loop_topE [of s]) (simp_all add: inv_push_def)
qed (use assms(2) in \<open>auto simp: inv_push_def finish_def\<close>)

lemma invariant_init: "invariant tgt a (init tgt a t0)"
  by (simp add: invariant_def inv_flags_init inv_pool_init inv_trace_init inv_push_init
      inv_crash_init inv_workers_init inv_seq_init inv_time_init)

lemma invariant_step:
  assumes "step s act = Some s'" and "invariant tgt a s"
  shows "invariant tgt a s'"
  using assms inv_flags_step [of s act s'] inv_pool_step [of s act s']
    inv_trace_step [of s act s'] inv_push_step [of s act s'] inv_crash_step [of s act s']
    inv_workers_step [of s act s' tgt a] inv_seq_step [of s act s'] inv_time_step [of s act s']
  by (simp add: invariant_def)

lemma invariant_run:
  "run s acts = Some s' \<Longrightarrow> invariant tgt a s \<Longrightarrow> invariant tgt a s'"
proof (induction acts arbitrary: s)
  case Nil
  then show ?case by simp
next
  case (Cons act acts)
  then show ?case
    by (auto split: option.splits dest: invariant_step)
qed

lemma reachable_invariant:
  "run (init tgt a t0) acts = Some s \<Longrightarrow> invariant tgt a s"
  using invariant_run [of "init tgt a t0" acts s tgt a] by (simp add: invariant_init)

section \<open>The worker pool\<close>

text \<open>
  C9. In any state a run reaches and for any step from it: the dispatcher's worker
  count \<open>workers\<close> does not decrease; it changes only when \<open>StartTest\<close> sets it to the
  configured \<open>Workers\<close> and when the \<open>default\<close> case of the non-blocking \<open>select\<close> spawns a
  worker, which adds exactly one and happens only with \<open>AutoScale\<close> set and the count
  strictly below \<open>MaxWorkers\<close>; the count is the number of worker goroutines, all of them
  running until \<open>ticks\<close> is closed; and if \<open>Workers \<le> MaxWorkers\<close> the count stays at or
  below \<open>MaxWorkers\<close>.
\<close>

theorem worker_count:
  assumes "run (init tgt a t0) acts = Some s" and "step s act = Some s'"
  shows "workers s \<le> workers s'
       \<and> (workers s' \<noteq> workers s \<longrightarrow>
            act = CallStartTest \<and> workers s = 0 \<and> workers s' = Workers a
            \<or> act = SpawnDefault \<and> unat (workers s') = unat (workers s) + 1
                \<and> AutoScale a \<and> workers s < MaxWorkers a)
       \<and> length (pool s) = unat (workers s)
       \<and> (\<not> ticks_closed s \<longrightarrow> live (pool s) = unat (workers s))
       \<and> (Workers a \<le> MaxWorkers a \<longrightarrow> workers s \<le> MaxWorkers a)"
proof -
  have inv: "invariant tgt a s"
    using assms(1) by (rule reachable_invariant)
  then have w: "inv_workers tgt a s" and p: "inv_pool s"
    by (simp_all add: invariant_def)
  have len: "length (pool s) = unat (workers s)"
    using w by (simp add: inv_workers_def)
  have alive: "\<not> ticks_closed s \<longrightarrow> live (pool s) = unat (workers s)"
    using p len live_full [of "pool s"] by (simp add: inv_pool_def)
  have bound: "Workers a \<le> MaxWorkers a \<longrightarrow> workers s \<le> MaxWorkers a"
    using w by (simp add: inv_workers_def)
  have a: "args (runner s) = a"
    using w by (simp add: inv_workers_def)
  have grow: "workers s \<le> workers s'
       \<and> (workers s' \<noteq> workers s \<longrightarrow>
            act = CallStartTest \<and> workers s = 0 \<and> workers s' = Workers a
            \<or> act = SpawnDefault \<and> unat (workers s') = unat (workers s) + 1
                \<and> AutoScale a \<and> workers s < MaxWorkers a)"
    using assms(2)
  proof (cases rule: stepE)
    case Start
    then have "pool s = []" using p by (simp add: inv_pool_def)
    then have "unat (workers s) = 0" using len by simp
    then have "workers s = 0" by (simp add: unat_eq_0)
    then show ?thesis using Start a by simp
  next
    case Top
    then show ?thesis by (cases rule: loop_topE [of s]) simp_all
  next
    case Spawn
    then have lt: "workers s < MaxWorkers a" and au: "AutoScale a"
      using w by (simp_all add: inv_workers_def)
    have su: "unat (workers s + 1) = Suc (unat (workers s))"
      using lt by (rule word_less_Suc(1))
    then have "workers s \<le> workers s + 1"
      by (simp add: word_le_nat_alt)
    then show ?thesis using Spawn lt au su by simp
  qed (simp_all add: finish_def)
  show ?thesis using grow len alive bound by blast
qed

section \<open>Shutdown\<close>





section \<open>Opening the output\<close>

lemma returned_stable:
  assumes "step s act = Some s'" and "main s = RunReturned x"
  shows "main s' = RunReturned x \<and> resultList s' = resultList s"
  using assms(1)
proof (cases rule: stepE)
  case Top
  then show ?thesis using assms(2) by (cases rule: loop_topE [of s]) simp_all
qed (use assms(2) in \<open>simp_all add: finish_def\<close>)

lemma returned_stable_run:
  "run s acts = Some s' \<Longrightarrow> main s = RunReturned x
     \<Longrightarrow> main s' = RunReturned x \<and> resultList s' = resultList s"
proof (induction acts arbitrary: s)
  case Nil
  then show ?case by simp
next
  case (Cons act acts)
  then show ?case
    by (auto split: option.splits dest: returned_stable)
qed

text \<open>
  C5, as amended. If the output cannot be opened, \<open>Run\<close> returns the error
  \<open>error opening <file>: <cause>\<close> to its caller, having received and written no result,
  and no later step changes that. \<open>StartTest\<close> has run before the output is opened, so
  requests may already have been issued by then: at most one per worker, since no worker
  can hand over its result.
\<close>

theorem open_failure:
  assumes "run (init tgt a t0) acts = Some s"
    and "step s (OpenOutput oserr) = Some s'"
    and "createWriter oserr (OutputFile a) = Some err"
  shows "main s' = RunReturned (Some (''error opening '' @ OutputFile a @ '': '' @ err))
       \<and> resultList s' = []
       \<and> length (issued s') \<le> length (pool s')
       \<and> (\<forall>acts' s''. run s' acts' = Some s'' \<longrightarrow> main s'' = main s' \<and> resultList s'' = [])"
proof -
  have inv: "invariant tgt a s"
    using assms(1) by (rule reachable_invariant)
  then have q: "inv_seq s" and w: "inv_workers tgt a s"
    by (simp_all add: invariant_def)
  have a: "args (runner s) = a"
    using w by (simp add: inv_workers_def)
  from assms(2) have m: "main s = RunCreateWriter
      \<and> main s' = RunReturned (Some (''error opening '' @ OutputFile a @ '': '' @ err))
      \<and> resultList s' = resultList s \<and> issued s' = issued s \<and> pool s' = pool s"
  proof (cases rule: stepE)
    case (OpenOk oserr')
    then show ?thesis using assms(3) a by simp
  next
    case (OpenErr oserr' err')
    then show ?thesis using assms(3) a by simp
  qed simp_all
  have rl: "resultList s = []"
    using q m by (simp add: inv_seq_def)
  have "mset (issued s) = holding (pool s)"
    using q rl by (simp add: inv_seq_def)
  then have "size (mset (issued s)) = size (holding (pool s))"
    by simp
  then have le: "length (issued s) \<le> length (pool s)"
    using size_holding [of "pool s"] by simp
  have "main s'' = main s' \<and> resultList s'' = []" if "run s' acts' = Some s''" for acts' s''
    using returned_stable_run [OF that, of "Some (''error opening '' @ OutputFile a @ '': '' @ err)"]
      m rl by simp
  then show ?thesis using m rl le by simp
qed

section \<open>Sequence numbers, timestamps and latencies\<close>

lemma distinct_of_submset:
  assumes "mset xs \<subseteq># mset ys" and "distinct ys"
  shows "distinct xs"
proof -
  have "count (mset xs) a = (if a \<in> set xs then 1 else 0)" for a
  proof -
    have "count (mset xs) a \<le> count (mset ys) a"
      using assms(1) by (rule mset_subset_eq_count)
    moreover have "count (mset ys) a \<le> 1"
      using assms(2) by (simp add: distinct_count_atmost_1)
    ultimately have le: "count (mset xs) a \<le> 1" by linarith
    show ?thesis
    proof (cases "a \<in> set xs")
      case True
      then have "0 < count (mset xs) a" by simp
      then have "count (mset xs) a = 1" using le by linarith
      then show ?thesis using True by simp
    next
      case False
      then show ?thesis by (simp add: count_eq_zero_iff)
    qed
  qed
  then show ?thesis by (simp add: distinct_count_atmost_1)
qed

lemma unat_of_nat64: "k < 18446744073709551616 \<Longrightarrow> unat (of_nat k :: 64 word) = k"
  by (simp add: unat_of_nat)

lemma issued_nth:
  assumes "map fst iss = map of_nat [0..<length iss]" and "k < length iss"
  shows "fst (iss ! k) = of_nat k"
proof -
  have "map fst iss ! k = map of_nat [0..<length iss] ! k"
    by (simp only: assms(1))
  then show ?thesis using assms(2) by simp
qed

lemma of_nat64_inj:
  assumes "i < 18446744073709551616" and "j < 18446744073709551616"
    and "(of_nat i :: 64 word) = of_nat j"
  shows "i = j"
proof -
  have "unat (of_nat i :: 64 word) = unat (of_nat j :: 64 word)"
    by (simp only: assms(3))
  then show ?thesis
    by (simp only: unat_of_nat64 [OF assms(1)] unat_of_nat64 [OF assms(2)])
qed

lemma distinct_of_nat_upt:
  assumes "n \<le> 18446744073709551616"
  shows "distinct (map (of_nat :: nat \<Rightarrow> 64 word) [0..<n])"
proof -
  have "inj_on (of_nat :: nat \<Rightarrow> 64 word) {0..<n}"
  proof (rule inj_onI)
    fix i j assume i: "i \<in> {0..<n}" and j: "j \<in> {0..<n}"
      and eq: "(of_nat i :: 64 word) = of_nat j"
    have "i < n" "j < n" using i j by simp_all
    then have "i < 18446744073709551616" "j < 18446744073709551616"
      using assms by linarith+
    then show "i = j" using eq by (rule of_nat64_inj)
  qed
  then show ?thesis by (simp add: distinct_map)
qed

lemma stamps_ordered:
  assumes m: "map fst iss = map of_nat [0..<length iss]"
    and n: "length iss < 18446744073709551616"
    and so: "sorted (map snd iss)"
    and p1: "(q1 :: 64 word, t1) \<in> set iss" and p2: "(q2, t2) \<in> set iss"
    and le: "q1 \<le> q2"
  shows "t1 \<le> t2"
proof -
  obtain k1 where k1: "k1 < length iss" "iss ! k1 = (q1, t1)"
    using p1 by (auto simp: in_set_conv_nth)
  obtain k2 where k2: "k2 < length iss" "iss ! k2 = (q2, t2)"
    using p2 by (auto simp: in_set_conv_nth)
  have q1: "q1 = of_nat k1" using issued_nth [OF m k1(1)] k1(2) by simp
  have q2: "q2 = of_nat k2" using issued_nth [OF m k2(1)] k2(2) by simp
  have "unat q1 = k1" unfolding q1 using k1(1) n by (intro unat_of_nat64) linarith
  moreover have "unat q2 = k2" unfolding q2 using k2(1) n by (intro unat_of_nat64) linarith
  ultimately have "k1 \<le> k2" using le by (simp add: word_le_nat_alt)
  then have "map snd iss ! k1 \<le> map snd iss ! k2"
    using so k2(1) by (intro sorted_nth_mono) simp_all
  then show ?thesis using k1 k2 by simp
qed

lemma unat_image_of_nat_upt:
  assumes "n \<le> 18446744073709551616"
  shows "unat ` (of_nat :: nat \<Rightarrow> 64 word) ` {0..<n} = {0..<n}"
proof -
  have eq: "unat (of_nat k :: 64 word) = k" if "k < n" for k
    using that assms by (intro unat_of_nat64) linarith
  show ?thesis
  proof (rule set_eqI)
    fix k
    show "k \<in> unat ` (of_nat :: nat \<Rightarrow> 64 word) ` {0..<n} \<longleftrightarrow> k \<in> {0..<n}"
    proof
      assume "k \<in> unat ` (of_nat :: nat \<Rightarrow> 64 word) ` {0..<n}"
      then obtain j where "j < n" "k = unat (of_nat j :: 64 word)" by auto
      then show "k \<in> {0..<n}" using eq [of j] by simp
    next
      assume "k \<in> {0..<n}"
      then have "k < n" by simp
      then have "k = unat (of_nat k :: 64 word)" using eq [of k] by simp
      then show "k \<in> unat ` (of_nat :: nat \<Rightarrow> 64 word) ` {0..<n}"
        using \<open>k < n\<close> by (metis atLeastLessThan_iff image_eqI zero_le)
    qed
  qed
qed

text \<open>
  C2. In any state a run reaches: the k-th request sent (the k-th locked section of
  \<open>sendRequest\<close>) carries the sequence number k, fewer than 2^64 requests have been sent,
  and their timestamps do not decrease in send order; the results \<open>Run\<close> has received
  carry distinct sequence numbers, their timestamps do not decrease along the sequence
  numbers, and every latency is non-negative; and once \<open>results\<close> is closed, the n results
  received carry exactly the sequence numbers 0, ..., n-1 and are the results of exactly
  the requests sent.
\<close>

theorem sequence_numbers:
  assumes "run (init tgt a t0) acts = Some s"
  shows "map fst (issued s) = map of_nat [0..<length (issued s)]
       \<and> length (issued s) < 18446744073709551616
       \<and> sorted (map snd (issued s))
       \<and> distinct (map Seq (resultList s))
       \<and> (\<forall>r1 \<in> set (resultList s). \<forall>r2 \<in> set (resultList s).
             Seq r1 \<le> Seq r2 \<longrightarrow> Timestamp r1 \<le> Timestamp r2)
       \<and> (\<forall>res \<in> set (resultList s). 0 \<le> sint (Latency res))
       \<and> (results_closed s \<longrightarrow>
             unat ` Seq ` set (resultList s) = {0..<length (resultList s)}
             \<and> mset (map stamp_of (resultList s)) = mset (issued s))"
proof -
  have inv: "invariant tgt a s"
    using assms by (rule reachable_invariant)
  then have q: "inv_seq s" and t: "inv_time s" and p: "inv_pool s" and f: "inv_flags s"
    by (simp_all add: invariant_def)
  let ?iss = "issued s" and ?rl = "resultList s"
  have m: "map fst ?iss = map of_nat [0..<length ?iss]"
    using q by (simp add: inv_seq_def)
  have "length ?iss \<le> unat (count_var s)"
    using q by (simp add: inv_seq_def)
  moreover have "unat (count_var s) < 2 ^ LENGTH(64)"
    by (rule unsigned_less)
  ultimately have n: "length ?iss < 18446744073709551616"
    by simp
  have so: "sorted (map snd ?iss)"
    using t by (simp add: inv_time_def)
  have eq: "mset ?iss = mset (map stamp_of ?rl) + holding (pool s)"
    using q by (simp add: inv_seq_def)
  then have sub: "mset (map stamp_of ?rl) \<subseteq># mset ?iss"
    by simp
  have dq: "distinct (map fst ?iss)"
    using n distinct_of_nat_upt [of "length ?iss"] by (simp add: m [symmetric])
  have "image_mset fst (mset (map stamp_of ?rl)) \<subseteq># image_mset fst (mset ?iss)"
    using sub by (rule image_mset_subseteq_mono)
  moreover have "image_mset fst (image_mset stamp_of (mset ?rl)) = image_mset Seq (mset ?rl)"
    by (simp add: multiset.map_comp comp_def stamp_of_def)
  ultimately have "mset (map Seq ?rl) \<subseteq># mset (map fst ?iss)"
    by simp
  then have d: "distinct (map Seq ?rl)"
    using dq by (rule distinct_of_submset)
  have mem: "(Seq res, Timestamp res) \<in> set ?iss" if "res \<in> set ?rl" for res
  proof -
    have "stamp_of res \<in># mset (map stamp_of ?rl)" using that by simp
    then have "stamp_of res \<in># mset ?iss" using sub by (rule mset_subset_eqD [rotated])
    then show ?thesis by (simp add: stamp_of_def)
  qed
  have ord: "\<forall>r1 \<in> set ?rl. \<forall>r2 \<in> set ?rl. Seq r1 \<le> Seq r2 \<longrightarrow> Timestamp r1 \<le> Timestamp r2"
    using stamps_ordered [OF m n so] mem by blast
  have lat: "\<forall>res \<in> set ?rl. 0 \<le> sint (Latency res)"
    using t by (simp add: inv_time_def)
  have closed: "unat ` Seq ` set ?rl = {0..<length ?rl} \<and> mset (map stamp_of ?rl) = mset ?iss"
    if "results_closed s"
  proof -
    have "live (pool s) = 0"
      using that f p by (simp add: inv_flags_def inv_pool_def)
    then have "holding (pool s) = {#}"
      by (intro holding_exited) (simp add: live_zero)
    then have e: "mset (map stamp_of ?rl) = mset ?iss"
      using eq by simp
    then have "size (mset (map stamp_of ?rl)) = size (mset ?iss)"
      by simp
    then have len: "length ?rl = length ?iss"
      by simp
    have "set (map stamp_of ?rl) = set ?iss"
      using e by (rule mset_eq_setD)
    then have "fst ` set (map stamp_of ?rl) = fst ` set ?iss"
      by simp
    then have "Seq ` set ?rl = set (map fst ?iss)"
      by (simp add: stamp_of_def image_image)
    also have "\<dots> = of_nat ` {0..<length ?iss}"
      by (simp add: m [symmetric] del: set_map) (simp add: m)
    finally have "unat ` Seq ` set ?rl = unat ` (of_nat :: nat \<Rightarrow> 64 word) ` {0..<length ?iss}"
      by simp
    then have "unat ` Seq ` set ?rl = {0..<length ?iss}"
      using n unat_image_of_nat_upt [of "length ?iss"] by simp
    then show ?thesis using len e by simp
  qed
  show ?thesis using m n so d ord lat closed by blast
qed

section \<open>The theorems at concrete runs\<close>

lemma run_final:
  "run (init target0 a 0) acts \<noteq> None \<Longrightarrow> run (init target0 a 0) acts = Some (final a acts)"
  by (auto simp: final_def)

text \<open>
  The whole run of \<open>fullRun\<close>: two results, with the sequence numbers 0 and 1, sent at
  10 ms and 20.0005 ms, with latencies of 500 ns and 30 us.
\<close>

theorem sequence_numbers_witness:
  "run (init target0 runArgs 0) fullRun \<noteq> None
   \<and> results_closed (final runArgs fullRun)
   \<and> map Seq (resultList (final runArgs fullRun)) = [0, 1]
   \<and> map Timestamp (resultList (final runArgs fullRun)) = [10000000, 20000500]
   \<and> map (\<lambda>res. sint (Latency res)) (resultList (final runArgs fullRun)) = [500, 30000]
   \<and> unat ` Seq ` set (resultList (final runArgs fullRun))
       = {0..<length (resultList (final runArgs fullRun))}
   \<and> distinct (map Seq (resultList (final runArgs fullRun)))
   \<and> sorted (map snd (issued (final runArgs fullRun)))"
proof -
  have ne: "run (init target0 runArgs 0) fullRun \<noteq> None"
    by code_simp
  have c: "results_closed (final runArgs fullRun)"
    by code_simp
  have v: "map Seq (resultList (final runArgs fullRun)) = [0, 1]"
    "map Timestamp (resultList (final runArgs fullRun)) = [10000000, 20000500]"
    "map (\<lambda>res. sint (Latency res)) (resultList (final runArgs fullRun)) = [500, 30000]"
    by code_simp+
  have "unat ` Seq ` set (resultList (final runArgs fullRun))
       = {0..<length (resultList (final runArgs fullRun))}
   \<and> distinct (map Seq (resultList (final runArgs fullRun)))
   \<and> sorted (map snd (issued (final runArgs fullRun)))"
    using sequence_numbers [OF run_final [OF ne]] c by blast
  then show ?thesis using ne c v by blast
qed

text \<open>
  With autoscaling, one worker and at most five: the dispatcher reaches the
  non-blocking \<open>select\<close> while no worker is blocked in its receive, and spawns the second.
\<close>

theorem worker_count_witness:
  "run (init target0 scaleArgs 0) scaleRun \<noteq> None
   \<and> step (final scaleArgs scaleRun) SpawnDefault \<noteq> None
   \<and> workers (final scaleArgs scaleRun) = 1
   \<and> workers (the (step (final scaleArgs scaleRun) SpawnDefault)) = 2
   \<and> \<not> ticks_closed (final scaleArgs scaleRun)
   \<and> Workers scaleArgs \<le> MaxWorkers scaleArgs
   \<and> AutoScale scaleArgs
   \<and> workers (final scaleArgs scaleRun) < MaxWorkers scaleArgs
   \<and> live (pool (final scaleArgs scaleRun)) = unat (workers (final scaleArgs scaleRun))
   \<and> workers (final scaleArgs scaleRun)
       \<le> workers (the (step (final scaleArgs scaleRun) SpawnDefault))"
proof -
  have ne: "run (init target0 scaleArgs 0) scaleRun \<noteq> None"
    by code_simp
  have st: "step (final scaleArgs scaleRun) SpawnDefault \<noteq> None"
    by code_simp
  then have st': "step (final scaleArgs scaleRun) SpawnDefault
      = Some (the (step (final scaleArgs scaleRun) SpawnDefault))"
    by simp
  have v: "workers (final scaleArgs scaleRun) = 1"
    "workers (the (step (final scaleArgs scaleRun) SpawnDefault)) = 2"
    "\<not> ticks_closed (final scaleArgs scaleRun)"
    "Workers scaleArgs \<le> MaxWorkers scaleArgs"
    "AutoScale scaleArgs"
    "workers (final scaleArgs scaleRun) < MaxWorkers scaleArgs"
    by code_simp+
  have "live (pool (final scaleArgs scaleRun)) = unat (workers (final scaleArgs scaleRun))
   \<and> workers (final scaleArgs scaleRun)
       \<le> workers (the (step (final scaleArgs scaleRun) SpawnDefault))"
    using worker_count [OF run_final [OF ne] st'] v(3) by blast
  then show ?thesis using ne st v by blast
qed


text \<open>
  \<open>os.Create\<close> fails after the first request has been sent: \<open>Run\<close> returns the error, it
  has received nothing, and one request (of the one worker) has been issued.
\<close>

theorem open_failure_witness:
  "run (init target0 fileArgs 0) firstRequest \<noteq> None
   \<and> step (final fileArgs firstRequest) (OpenOutput (Some ''permission denied'')) \<noteq> None
   \<and> createWriter (Some ''permission denied'') (OutputFile fileArgs) = Some ''permission denied''
   \<and> main (the (step (final fileArgs firstRequest) (OpenOutput (Some ''permission denied''))))
       = RunReturned (Some ''error opening /out/results.csv: permission denied'')
   \<and> resultList (the (step (final fileArgs firstRequest) (OpenOutput (Some ''permission denied''))))
       = []
   \<and> length (issued (the (step (final fileArgs firstRequest)
         (OpenOutput (Some ''permission denied''))))) = 1
   \<and> length (pool (the (step (final fileArgs firstRequest)
         (OpenOutput (Some ''permission denied''))))) = 1"
proof -
  let ?s' = "the (step (final fileArgs firstRequest) (OpenOutput (Some ''permission denied'')))"
  have ne: "run (init target0 fileArgs 0) firstRequest \<noteq> None"
    by code_simp
  have st: "step (final fileArgs firstRequest) (OpenOutput (Some ''permission denied'')) \<noteq> None"
    by code_simp
  then have st': "step (final fileArgs firstRequest) (OpenOutput (Some ''permission denied''))
      = Some ?s'"
    by simp
  have cw: "createWriter (Some ''permission denied'') (OutputFile fileArgs)
      = Some ''permission denied''"
    by code_simp
  have n: "OutputFile fileArgs = ''/out/results.csv''"
    by code_simp
  have v: "length (issued ?s') = 1" "length (pool ?s') = 1"
    by code_simp+
  have "main ?s' = RunReturned (Some (''error opening '' @ OutputFile fileArgs @ '': ''
            @ ''permission denied''))
      \<and> resultList ?s' = []"
    using open_failure [OF run_final [OF ne] st' cw] by blast
  then have "main ?s' = RunReturned (Some ''error opening /out/results.csv: permission denied'')
      \<and> resultList ?s' = []"
    by (simp add: n)
  then show ?thesis using ne st cw v by blast
qed

text \<open>
  C5 as stated fails: in this run the request with sequence number 0 is sent one
  nanosecond after the start, and then the output cannot be opened and \<open>Run\<close> returns the
  error.
\<close>

theorem open_failure_counterexample:
  "map_option main (run (init target0 fileArgs 0)
       (firstRequest @ [OpenOutput (Some ''permission denied'')]))
     = Some (RunReturned (Some ''error opening /out/results.csv: permission denied''))
   \<and> map_option issued (run (init target0 fileArgs 0)
       (firstRequest @ [OpenOutput (Some ''permission denied'')]))
     = Some [(0, 1)]
   \<and> map_option pool (run (init target0 fileArgs 0)
       (firstRequest @ [OpenOutput (Some ''permission denied'')]))
     = Some [InFlight (zero_Result\<lparr>Timestamp := 1\<rparr>)]"
  by code_simp

text \<open>
  A 404, a 200, and the worker of \<open>firstRequest\<close>, whose request is in flight, completing
  with a timeout.
\<close>

theorem sendRequest_outcomes_witness:
  "(0::int) \<le> 404 \<and> (404::int) < 65536 \<and> ((404::int) < 200 \<or> (400::int) \<le> 404)
   \<and> uint (Code (fst (sendRequest 0 (Response 404 ''404 Not Found'') 7 \<lparr>began = 0, seq = 3\<rparr>)))
       = 404
   \<and> Error (fst (sendRequest 0 (Response 404 ''404 Not Found'') 7 \<lparr>began = 0, seq = 3\<rparr>))
       = ''404 Not Found''
   \<and> (200::int) \<le> 200 \<and> (200::int) < 400
   \<and> Error (fst (sendRequest 0 (Response 200 ''404 Not Found'') 7 \<lparr>began = 0, seq = 3\<rparr>)) = []
   \<and> crashed (final fileArgs firstRequest) = None
   \<and> 0 < length (pool (final fileArgs firstRequest))
   \<and> pool (final fileArgs firstRequest) ! 0 = InFlight (zero_Result\<lparr>Timestamp := 1\<rparr>)
   \<and> step (final fileArgs firstRequest) (Complete 0 (TransportError ''timeout''))
       = Some ((final fileArgs firstRequest)\<lparr>pool := (pool (final fileArgs firstRequest))
           [0 := Pushing (sendRequest_rest (now (final fileArgs firstRequest))
                   (TransportError ''timeout'') (zero_Result\<lparr>Timestamp := 1\<rparr>))]\<rparr>)"
proof -
  have h: "crashed (final fileArgs firstRequest) = None"
    "0 < length (pool (final fileArgs firstRequest))"
    "pool (final fileArgs firstRequest) ! 0 = InFlight (zero_Result\<lparr>Timestamp := 1\<rparr>)"
    by code_simp+
  show ?thesis
    using h sendRequest_outcomes [of 0 _ 7 "\<lparr>began = 0, seq = 3\<rparr>" 404 "''404 Not Found''" 200
        "final fileArgs firstRequest" 0 "zero_Result\<lparr>Timestamp := 1\<rparr>"
        "TransportError ''timeout''"]
    by simp
qed

end
